theory Spec2Isabelle
  imports Main "HOL-Library.AList" "HOL-Library.Sublist" "HOL-Library.Multiset"
begin

section \<open>Data model of main.cpp\<close>

text \<open>
  \<^verbatim>\<open>struct Node { char ch; int freq; Node* left; Node* right; }\<close>.
  A child pointer is either null (\<open>None\<close>) or owns a node. The trees are built bottom-up
  and never shared, so a node is modelled by value. The counts are 32-bit \<^verbatim>\<open>int\<close>s.
  They are modelled by the integers from \<open>-2^31\<close> to \<open>2^31 - 1\<close>, and every
  arithmetic result is brought back into that range by \<open>int32\<close>: an increment or a
  sum that leaves the range wraps around, as it does on the two's complement targets
  of the program.
\<close>

definition int32 :: "int \<Rightarrow> int" where
  "int32 x = (x + 2147483648) mod 4294967296 - 2147483648"

datatype node = Node (ch: char) (freq: int) (left: "node option") (right: "node option")

text \<open>The constructor \<^verbatim>\<open>Node(char character, int frequency)\<close>: both children null.\<close>

definition new_Node :: "char \<Rightarrow> int \<Rightarrow> node" where
  "new_Node character frequency = Node character frequency None None"

text \<open>\<^verbatim>\<open>Compare::operator()\<close>, the ordering handed to the priority queue.\<close>

definition Compare :: "node \<Rightarrow> node \<Rightarrow> bool" where
  "Compare a b = (freq a > freq b)"

text \<open>
  \<^verbatim>\<open>std::unordered_map\<close> as an association list with distinct keys. The list order
  stands for the iteration order, which C++ leaves unspecified; the outcomes of the
  builder do not depend on it (\<open>build_order_irrelevant\<close> below). \<^verbatim>\<open>operator[]\<close>
  followed by an assignment is \<open>AList.update\<close>; \<^verbatim>\<open>at\<close>, here \<open>at_key\<close>, throws
  \<^verbatim>\<open>std::out_of_range\<close> on a missing key.
\<close>

type_synonym ('k, 'v) unordered_map = "('k \<times> 'v) list"

text \<open>
  What a call can end in besides returning: the exception of \<^verbatim>\<open>unordered_map::at\<close>,
  and the three places where the C++ standard leaves the behaviour undefined
  (\<^verbatim>\<open>top()\<close> of an empty \<^verbatim>\<open>priority_queue\<close>, reading through a null pointer, and a
  division whose second operand is zero).
\<close>

datatype fault = Out_of_range | Top_of_empty_queue | Null_dereference | Division_by_zero

definition at_key :: "('k, 'v) unordered_map \<Rightarrow> 'k \<Rightarrow> fault + 'v" where
  "at_key m k = (case map_of m k of None \<Rightarrow> Inl Out_of_range | Some v \<Rightarrow> Inr v)"

section \<open>buildFrequencyTable\<close>

text \<open>\<^verbatim>\<open>frequency[k]++\<close>: a missing key is first inserted with the value 0.\<close>

definition increment :: "(char, int) unordered_map \<Rightarrow> char \<Rightarrow> (char, int) unordered_map" where
  "increment frequency k =
     AList.update k (int32 ((case map_of frequency k of None \<Rightarrow> 0 | Some n \<Rightarrow> n) + 1))
       frequency"

fun count_chars :: "string \<Rightarrow> (char, int) unordered_map \<Rightarrow> (char, int) unordered_map" where
  "count_chars [] frequency = frequency"
| "count_chars (c # input) frequency =
     count_chars input
       (if c = CHR '' '' then increment frequency CHR ''-'' else increment frequency c)"

definition buildFrequencyTable :: "string \<Rightarrow> (char, int) unordered_map" where
  "buildFrequencyTable input = count_chars input []"

section \<open>buildHuffmanTree\<close>

text \<open>
  \<^verbatim>\<open>std::priority_queue<Node*, vector<Node*>, Compare>\<close>. The standard fixes only that
  the container is kept as a heap with respect to \<open>Compare\<close>: \<open>top()\<close> is an element
  \<open>x\<close> such that \<open>Compare x y\<close> holds for no element \<open>y\<close>, and which one among several
  such elements is not specified. The queue is therefore modelled by the list of its
  elements, \<open>top\<close> by the relation \<open>is_top\<close>, and \<open>pop\<close> removes the element
  that \<open>top\<close> returned.
\<close>

inductive is_top :: "node list \<Rightarrow> node \<Rightarrow> bool" where
  top: "ListMem x minHeap \<Longrightarrow> list_all (\<lambda>y. \<not> Compare x y) minHeap \<Longrightarrow> is_top minHeap x"

definition push :: "node \<Rightarrow> node list \<Rightarrow> node list" where
  "push x minHeap = x # minHeap"

definition pop :: "node \<Rightarrow> node list \<Rightarrow> node list" where
  "pop x minHeap = remove1 x minHeap"

text \<open>The first loop: one leaf per entry of the table, pushed in iteration order.\<close>

fun push_all :: "(char, int) unordered_map \<Rightarrow> node list \<Rightarrow> node list" where
  "push_all [] minHeap = minHeap"
| "push_all (pair # frequency) minHeap =
     push_all frequency (push (new_Node (fst pair) (snd pair)) minHeap)"

text \<open>The node \<^verbatim>\<open>merged\<close> of one iteration of the second loop.\<close>

definition merged :: "node \<Rightarrow> node \<Rightarrow> node" where
  "merged l r = Node (CHR 0x00) (int32 (freq l + freq r)) (Some l) (Some r)"

text \<open>\<^verbatim>\<open>while (minHeap.size() > 1) { ... }\<close>, from the queue before to the queue after.\<close>

inductive merge_loop :: "node list \<Rightarrow> node list \<Rightarrow> bool" where
  exit: "\<not> 1 < length minHeap \<Longrightarrow> merge_loop minHeap minHeap"
| iterate: "1 < length minHeap \<Longrightarrow> is_top minHeap l \<Longrightarrow> is_top (pop l minHeap) r \<Longrightarrow>
     merge_loop (push (merged l r) (pop r (pop l minHeap))) minHeap' \<Longrightarrow>
     merge_loop minHeap minHeap'"

text \<open>
  The whole function. \<^verbatim>\<open>return minHeap.top()\<close> on an empty queue is undefined
  behaviour.
\<close>

inductive buildHuffmanTree :: "(char, int) unordered_map \<Rightarrow> fault + node \<Rightarrow> bool" where
  empty: "merge_loop (push_all frequency []) [] \<Longrightarrow>
     buildHuffmanTree frequency (Inl Top_of_empty_queue)"
| root: "merge_loop (push_all frequency []) minHeap \<Longrightarrow> is_top minHeap t \<Longrightarrow>
     buildHuffmanTree frequency (Inr t)"

section \<open>generateHuffmanCodes\<close>

function generateHuffmanCodes ::
  "node option \<Rightarrow> string \<Rightarrow> (char, string) unordered_map \<Rightarrow> (char, string) unordered_map" where
  "generateHuffmanCodes None code huffmanCodes = huffmanCodes"
| "generateHuffmanCodes (Some root) code huffmanCodes =
     generateHuffmanCodes (right root) (code @ ''1'')
       (generateHuffmanCodes (left root) (code @ ''0'')
          (if left root = None \<and> right root = None
           then AList.update (ch root) code huffmanCodes else huffmanCodes))"
  by pat_completeness auto
termination
proof (relation "measure (\<lambda>(root, code, huffmanCodes). size_option size root)")
  show "wf (measure (\<lambda>(root, code, huffmanCodes). size_option size root))"
    by simp
next
  fix root :: node and code :: string and huffmanCodes :: "(char, string) unordered_map"
  show "((left root, code @ ''0'',
          if left root = None \<and> right root = None
          then AList.update (ch root) code huffmanCodes else huffmanCodes),
         (Some root, code, huffmanCodes))
        \<in> measure (\<lambda>(root, code, huffmanCodes). size_option size root)"
    by (cases root) simp
next
  fix root :: node and code :: string and huffmanCodes hc' :: "(char, string) unordered_map"
  show "((right root, code @ ''1'', hc'), (Some root, code, huffmanCodes))
        \<in> measure (\<lambda>(root, code, huffmanCodes). size_option size root)"
    by (cases root) simp
qed

section \<open>encode\<close>

fun encode_loop :: "string \<Rightarrow> (char, string) unordered_map \<Rightarrow> string \<Rightarrow> fault + string" where
  "encode_loop [] huffmanCodes encodedString = Inr encodedString"
| "encode_loop (c # input) huffmanCodes encodedString =
     (case (if c = CHR '' '' then at_key huffmanCodes CHR ''-'' else at_key huffmanCodes c) of
        Inl e \<Rightarrow> Inl e
      | Inr code \<Rightarrow> encode_loop input huffmanCodes (encodedString @ code))"

definition encode :: "string \<Rightarrow> (char, string) unordered_map \<Rightarrow> fault + string" where
  "encode input huffmanCodes = encode_loop input huffmanCodes []"

section \<open>decode\<close>

text \<open>
  The loop of \<open>decode\<close> with its two variables. \<^verbatim>\<open>current->left\<close> reads through
  \<open>current\<close>, and the leaf test reads through the child just stepped to: either is
  undefined behaviour on a null pointer. Every character other than \<open>0\<close> steps right.
\<close>

definition is_leaf :: "node \<Rightarrow> bool" where
  "is_leaf n = (left n = None \<and> right n = None)"

fun decode_loop ::
  "string \<Rightarrow> node option \<Rightarrow> string \<Rightarrow> node option \<Rightarrow> fault + (string \<times> node option)" where
  "decode_loop [] root decodedString current = Inr (decodedString, current)"
| "decode_loop (b # encodedString) root decodedString current =
     (case current of
        None \<Rightarrow> Inl Null_dereference
      | Some n \<Rightarrow>
          (case (if b = CHR ''0'' then left n else right n) of
             None \<Rightarrow> Inl Null_dereference
           | Some n' \<Rightarrow>
               if is_leaf n'
               then decode_loop encodedString root
                      (decodedString @ [if ch n' = CHR ''-'' then CHR '' '' else ch n']) root
               else decode_loop encodedString root decodedString (Some n')))"

definition decode :: "string \<Rightarrow> node option \<Rightarrow> fault + string" where
  "decode encodedString root =
     (case decode_loop encodedString root [] root of
        Inl e \<Rightarrow> Inl e
      | Inr (decodedString, current) \<Rightarrow> Inr decodedString)"

section \<open>One round of main\<close>

text \<open>
  Steps 2 to 6 of the loop body of \<open>main\<close> for one input line: the table, the tree,
  the codes, the encoded and the decoded string. The round ends in a fault when a
  step does.
\<close>

inductive main_round :: "string \<Rightarrow> fault + (string \<times> string) \<Rightarrow> bool" where
  no_tree: "buildHuffmanTree (buildFrequencyTable input) (Inl e) \<Longrightarrow> main_round input (Inl e)"
| no_encoding: "buildHuffmanTree (buildFrequencyTable input) (Inr t) \<Longrightarrow>
     encode input (generateHuffmanCodes (Some t) [] []) = Inl e \<Longrightarrow> main_round input (Inl e)"
| no_decoding: "buildHuffmanTree (buildFrequencyTable input) (Inr t) \<Longrightarrow>
     encode input (generateHuffmanCodes (Some t) [] []) = Inr enc \<Longrightarrow>
     decode enc (Some t) = Inl e \<Longrightarrow> main_round input (Inl e)"
| decoded: "buildHuffmanTree (buildFrequencyTable input) (Inr t) \<Longrightarrow>
     encode input (generateHuffmanCodes (Some t) [] []) = Inr enc \<Longrightarrow>
     decode enc (Some t) = Inr dec \<Longrightarrow> main_round input (Inr (enc, dec))"

text \<open>
  Step 7. The sizes are \<^verbatim>\<open>size_t\<close> values, modelled by \<open>nat\<close> (a string too long for
  \<^verbatim>\<open>input.size() * 8\<close> to fit does not exist on a 64-bit target). The ratio is the
  quotient of two doubles: \<open>Quotient a b\<close> stands for the double nearest to \<open>a / b\<close>,
  and a zero divisor is a fault.
\<close>

datatype quotient = Quotient nat nat

definition originalSize :: "string \<Rightarrow> nat" where
  "originalSize input = length input * 8"

definition compressedSize :: "string \<Rightarrow> nat" where
  "compressedSize enc = length enc"

definition divide_double :: "nat \<Rightarrow> nat \<Rightarrow> fault + quotient" where
  "divide_double a b = (if b = 0 then Inl Division_by_zero else Inr (Quotient a b))"

definition compressionRatio :: "string \<Rightarrow> string \<Rightarrow> fault + quotient" where
  "compressionRatio input enc = divide_double (originalSize input) (compressedSize enc)"

section \<open>Notions used in the statements\<close>

text \<open>The sentinel substitution of the table and the encoder, and its reversal in the decoder.\<close>

definition to_sentinel :: "char \<Rightarrow> char" where
  "to_sentinel c = (if c = CHR '' '' then CHR ''-'' else c)"

definition from_sentinel :: "char \<Rightarrow> char" where
  "from_sentinel c = (if c = CHR ''-'' then CHR '' '' else c)"

text \<open>The decoder steps left on the character \<open>0\<close> and right on any other: it reads
  a bitstring as \<open>map to_bit\<close> of it.\<close>

definition to_bit :: "char \<Rightarrow> char" where
  "to_bit b = (if b = CHR ''0'' then CHR ''0'' else CHR ''1'')"

text \<open>A strict binary tree: every node has two children or none.\<close>

inductive strict :: "node \<Rightarrow> bool" where
  leaf: "strict (Node c f None None)"
| inner: "strict l \<Longrightarrow> strict r \<Longrightarrow> strict (Node c f (Some l) (Some r))"

text \<open>
  A strict tree whose leaves carry positive counts and whose inner nodes carry the sum
  of their children's, not wrapped.
\<close>

inductive weighted :: "node \<Rightarrow> bool" where
  leaf: "0 < f \<Longrightarrow> weighted (Node c f None None)"
| inner: "weighted l \<Longrightarrow> weighted r \<Longrightarrow> weighted (Node c (freq l + freq r) (Some l) (Some r))"

text \<open>The leaves of a tree, left to right: symbol, count and path from the root.\<close>

fun leaves :: "node \<Rightarrow> string \<Rightarrow> (char \<times> int \<times> string) list" where
  "leaves (Node c f l r) p =
     (if l = None \<and> r = None then [(c, f, p)] else []) @
     (case l of None \<Rightarrow> [] | Some n \<Rightarrow> leaves n (p @ ''0'')) @
     (case r of None \<Rightarrow> [] | Some n \<Rightarrow> leaves n (p @ ''1''))"

definition codes_of :: "node \<Rightarrow> string \<Rightarrow> (char \<times> string) list" where
  "codes_of t p = map (\<lambda>(c, f, s). (c, s)) (leaves t p)"

definition counts_of :: "node \<Rightarrow> (char \<times> int) list" where
  "counts_of t = map (\<lambda>(c, f, s). (c, f)) (leaves t [])"

text \<open>The counts of the nodes at depth \<open>d\<close>.\<close>

fun level :: "node \<Rightarrow> nat \<Rightarrow> int list" where
  "level (Node c f l r) 0 = [f]"
| "level (Node c f l r) (Suc d) =
     (case l of None \<Rightarrow> [] | Some n \<Rightarrow> level n d) @
     (case r of None \<Rightarrow> [] | Some n \<Rightarrow> level n d)"

text \<open>The pair of the children's counts, for every inner node, and for those at depth \<open>d\<close>.\<close>

fun sibling_pairs :: "node \<Rightarrow> (int \<times> int) list" where
  "sibling_pairs (Node c f l r) =
     (case (l, r) of (Some a, Some b) \<Rightarrow> [(freq a, freq b)] | _ \<Rightarrow> []) @
     (case l of None \<Rightarrow> [] | Some n \<Rightarrow> sibling_pairs n) @
     (case r of None \<Rightarrow> [] | Some n \<Rightarrow> sibling_pairs n)"

fun level_pairs :: "node \<Rightarrow> nat \<Rightarrow> (int \<times> int) list" where
  "level_pairs (Node c f l r) 0 =
     (case (l, r) of (Some a, Some b) \<Rightarrow> [(freq a, freq b)] | _ \<Rightarrow> [])"
| "level_pairs (Node c f l r) (Suc d) =
     (case l of None \<Rightarrow> [] | Some n \<Rightarrow> level_pairs n d) @
     (case r of None \<Rightarrow> [] | Some n \<Rightarrow> level_pairs n d)"

text \<open>One pair was merged before the other: none of its counts exceeds one of the other's.\<close>

definition before :: "int \<times> int \<Rightarrow> int \<times> int \<Rightarrow> bool" where
  "before P P' = (max (fst P) (snd P) \<le> min (fst P') (snd P'))"

text \<open>The symbols and counts at the leaves of all the trees in the queue.\<close>

definition forest_counts :: "node list \<Rightarrow> (char \<times> int) multiset" where
  "forest_counts q = (\<Sum>t\<leftarrow>q. mset (counts_of t))"

text \<open>
  The sibling pairs of all the trees in the queue, and the invariant of the merge loop:
  every tree is weighted, the counts of the trees in the queue add up to less than
  \<open>2^31\<close>, no count of a merged pair exceeds the count of a tree still in the queue,
  and the merged pairs can be lined up in the order of their merging.
\<close>

definition forest_pairs :: "node list \<Rightarrow> (int \<times> int) multiset" where
  "forest_pairs q = (\<Sum>t\<leftarrow>q. mset (sibling_pairs t))"

definition merge_invariant :: "node list \<Rightarrow> bool" where
  "merge_invariant q =
     ((\<forall>t\<in>set q. weighted t) \<and>
      sum_list (map freq q) < 2147483648 \<and>
      (\<forall>t\<in>set q. \<forall>P\<in>#forest_pairs q. fst P \<le> freq t \<and> snd P \<le> freq t) \<and>
      (\<exists>h. mset h = forest_pairs q \<and> sorted_wrt before h))"

text \<open>The relations of the model can be run: each enumerates its outcomes.\<close>

code_pred (modes: i \<Rightarrow> o \<Rightarrow> bool) is_top .
code_pred (modes: i \<Rightarrow> o \<Rightarrow> bool) merge_loop .
code_pred (modes: i \<Rightarrow> o \<Rightarrow> bool) buildHuffmanTree .
code_pred (modes: i \<Rightarrow> o \<Rightarrow> bool) main_round .

section \<open>The frequency table\<close>

lemma int32_id: "- 2147483648 \<le> x \<Longrightarrow> x < 2147483648 \<Longrightarrow> int32 x = x"
  by (simp add: int32_def)

lemma int32_add_left: "int32 (int32 x + y) = int32 (x + y)"
  by (simp add: int32_def mod_simps algebra_simps)

lemma map_of_increment:
  "map_of (increment m k) =
     (map_of m)(k \<mapsto> int32 ((case map_of m k of None \<Rightarrow> 0 | Some n \<Rightarrow> n) + 1))"
  by (simp add: increment_def update_conv')

lemma sum_update:
  "sum_list (map snd (AList.update k v m)) =
     sum_list (map snd m) - (case map_of m k of None \<Rightarrow> 0 | Some n \<Rightarrow> n) + (v::int)"
  by (induction m) auto

lemma keys_increment: "fst ` set (increment m k) = insert k (fst ` set m)"
  by (simp add: increment_def dom_update)

lemma distinct_increment: "distinct (map fst m) \<Longrightarrow> distinct (map fst (increment m k))"
  by (simp add: increment_def distinct_update)

lemma set_update_cases: "x \<in> set (AList.update k v m) \<Longrightarrow> x = (k, v) \<or> x \<in> set m"
  by (induction m) (auto split: if_splits)

lemma member_le_sum:
  "\<forall>x\<in>set xs. 0 \<le> x \<Longrightarrow> (y::int) \<in> set xs \<Longrightarrow> y \<le> sum_list xs"
proof (induction xs)
  case Nil
  then show ?case by simp
next
  case (Cons x xs)
  from Cons.prems(1) have "0 \<le> sum_list xs" by (intro sum_list_nonneg) simp
  with Cons show ?case by auto
qed

lemma entry_le_sum:
  assumes "\<forall>x\<in>set m. 0 < snd x" "map_of m k = Some (n::int)"
  shows "0 < n \<and> n \<le> sum_list (map snd m)"
proof -
  from assms(2) have mem: "(k, n) \<in> set m" by (rule map_of_SomeD)
  with assms(1) have "0 < n" by fastforce
  moreover have "\<forall>x\<in>set (map snd m). 0 \<le> x" using assms(1) by fastforce
  moreover have "n \<in> set (map snd m)" using mem by force
  ultimately show ?thesis using member_le_sum [of "map snd m" n] by simp
qed

text \<open>As long as the counts stay below \<open>2^31\<close> an increment does not wrap.\<close>

lemma increment_exact:
  assumes pos: "\<forall>x\<in>set m. 0 < snd x" and bound: "sum_list (map snd m) + 1 < 2147483648"
  shows "sum_list (map snd (increment m k)) = sum_list (map snd m) + 1"
    and "\<forall>x\<in>set (increment m k). 0 < snd x"
proof -
  let ?old = "case map_of m k of None \<Rightarrow> 0 | Some n \<Rightarrow> n"
  have old: "0 \<le> ?old \<and> ?old \<le> sum_list (map snd m)"
  proof (cases "map_of m k")
    case None
    have "0 \<le> sum_list (map snd m)" using pos by (intro sum_list_nonneg) (auto intro: less_imp_le)
    with None show ?thesis by simp
  next
    case (Some n)
    with entry_le_sum [OF pos Some] show ?thesis by simp
  qed
  with bound have new: "int32 (?old + 1) = ?old + 1" by (intro int32_id) simp_all
  then show "sum_list (map snd (increment m k)) = sum_list (map snd m) + 1"
    by (simp add: increment_def sum_update)
  show "\<forall>x\<in>set (increment m k). 0 < snd x"
  proof
    fix x assume "x \<in> set (increment m k)"
    then consider "x = (k, ?old + 1)" | "x \<in> set m"
      unfolding increment_def new by (auto dest: set_update_cases)
    then show "0 < snd x"
    proof cases
      case 1
      with old show ?thesis by simp
    next
      case 2
      with pos show ?thesis by blast
    qed
  qed
qed

lemma count_chars_exact:
  "\<forall>x\<in>set m. 0 < snd x \<Longrightarrow> sum_list (map snd m) + int (length input) < 2147483648 \<Longrightarrow>
   sum_list (map snd (count_chars input m)) = sum_list (map snd m) + int (length input) \<and>
   (\<forall>x\<in>set (count_chars input m). 0 < snd x)"
proof (induction input arbitrary: m)
  case Nil
  then show ?case by simp
next
  case (Cons c input)
  let ?m = "increment m (to_sentinel c)"
  have step: "count_chars (c # input) m = count_chars input ?m"
    by (simp add: to_sentinel_def)
  from Cons.prems(2) have "sum_list (map snd m) + 1 < 2147483648" by simp
  from increment_exact [OF Cons.prems(1) this, of "to_sentinel c"]
  have sum: "sum_list (map snd ?m) = sum_list (map snd m) + 1"
    and pos: "\<forall>x\<in>set ?m. 0 < snd x" by simp_all
  from Cons.prems(2) sum have "sum_list (map snd ?m) + int (length input) < 2147483648"
    by simp
  from Cons.IH [OF pos this] sum show ?case by (simp only: step) simp
qed

lemma count_chars_keys:
  "fst ` set (count_chars input m) = fst ` set m \<union> to_sentinel ` set input"
  by (induction input arbitrary: m) (auto simp: keys_increment to_sentinel_def)

lemma count_chars_distinct:
  "distinct (map fst m) \<Longrightarrow> distinct (map fst (count_chars input m))"
  by (induction input arbitrary: m) (simp_all add: distinct_increment)

lemma table_keys: "fst ` set (buildFrequencyTable input) = to_sentinel ` set input"
  by (simp add: buildFrequencyTable_def count_chars_keys)

lemma table_distinct: "distinct (map fst (buildFrequencyTable input))"
  by (simp add: buildFrequencyTable_def count_chars_distinct)

lemma table_exact:
  assumes "length input < 2147483648"
  shows "sum_list (map snd (buildFrequencyTable input)) = int (length input)"
    and "\<forall>x\<in>set (buildFrequencyTable input). 0 < snd x"
  using count_chars_exact [of "[]" input] assms by (simp_all add: buildFrequencyTable_def)

text \<open>A line of one repeated character, of any length: the count wraps.\<close>

lemma count_chars_replicate:
  "c \<noteq> CHR '' '' \<Longrightarrow>
   count_chars (replicate n c) [(c, int32 k)] = [(c, int32 (k + int n))]"
proof (induction n arbitrary: k)
  case 0
  show ?case by simp
next
  case (Suc n)
  have "increment [(c, int32 k)] c = [(c, int32 (k + 1))]"
    by (simp add: increment_def int32_add_left)
  with Suc.prems Suc.IH [OF Suc.prems, of "k + 1"] show ?case by (simp add: algebra_simps)
qed

lemma table_replicate:
  assumes "c \<noteq> CHR '' ''"
  shows "buildFrequencyTable (replicate (Suc n) c) = [(c, int32 (1 + int n))]"
proof -
  have "increment [] c = [(c, int32 1)]" by (simp add: increment_def)
  with assms count_chars_replicate [OF assms, of n 1] show ?thesis
    by (simp add: buildFrequencyTable_def)
qed

text \<open>
  C9, as stated, for every input string. On the line of \<open>2^31\<close> characters \<open>a\<close> the one
  count has wrapped to \<open>-2^31\<close>: it is not positive, and the counts do not add up to
  the length of the input.
\<close>

theorem frequency_table_counterexample:
  "buildFrequencyTable (replicate 2147483648 CHR ''a'') = [(CHR ''a'', - 2147483648)] \<and>
   sum_list (map snd (buildFrequencyTable (replicate 2147483648 CHR ''a''))) \<noteq>
     int (length (replicate 2147483648 CHR ''a'')) \<and>
   \<not> list_all (\<lambda>x. 0 < snd x) (buildFrequencyTable (replicate 2147483648 CHR ''a''))"
proof -
  have "buildFrequencyTable (replicate (Suc 2147483647) CHR ''a'') =
      [(CHR ''a'', int32 (1 + int 2147483647))]"
    by (rule table_replicate) simp
  moreover have "Suc 2147483647 = 2147483648" by simp
  moreover have "int32 (1 + int 2147483647) = - 2147483648" by (simp add: int32_def)
  ultimately have "buildFrequencyTable (replicate 2147483648 CHR ''a'') =
      [(CHR ''a'', - 2147483648)]" by simp
  then show ?thesis by simp
qed

text \<open>
  C9, amended. For every input string the keys of the table are, each exactly once, the
  symbols of the input after the substitution of the space by the sentinel. For every
  input string shorter than \<open>2^31\<close> characters, moreover, the counts of the table add
  up to the length of the input and every count is positive.
\<close>

theorem frequency_table_invariant:
  "distinct (map fst (buildFrequencyTable input)) \<and>
   set (map fst (buildFrequencyTable input)) = to_sentinel ` set input \<and>
   (length input < 2147483648 \<longrightarrow>
      sum_list (map snd (buildFrequencyTable input)) = int (length input) \<and>
      (\<forall>x\<in>set (buildFrequencyTable input). 0 < snd x))"
  using table_keys [of input] table_distinct [of input] table_exact [of input]
  by simp

theorem frequency_table_invariant_witness:
  "length ''a b a'' < 2147483648 \<and>
   buildFrequencyTable ''a b a'' = [(CHR ''a'', 2), (CHR ''-'', 2), (CHR ''b'', 1)] \<and>
   sum_list (map snd (buildFrequencyTable ''a b a'')) = 5 \<and>
   list_all (\<lambda>x. 0 < snd x) (buildFrequencyTable ''a b a'') \<and>
   distinct (map fst (buildFrequencyTable ''a b a'')) \<and>
   set (map fst (buildFrequencyTable ''a b a'')) = {CHR ''a'', CHR ''-'', CHR ''b''}"
  using frequency_table_invariant [of "''a b a''"]
  by (simp add: buildFrequencyTable_def increment_def int32_def to_sentinel_def insert_commute)

section \<open>The priority queue and the merge loop\<close>

lemma is_top_iff: "is_top q x \<longleftrightarrow> x \<in> set q \<and> (\<forall>y\<in>set q. freq x \<le> freq y)"
  by (auto simp: is_top.simps ListMem_iff list_all_iff Compare_def not_less)

lemma exists_top: "q \<noteq> [] \<Longrightarrow> \<exists>x. is_top q x"
proof (induction q)
  case Nil
  then show ?case by simp
next
  case (Cons t q)
  show ?case
  proof (cases "q = []")
    case True
    then show ?thesis by (auto simp: is_top_iff)
  next
    case False
    with Cons.IH obtain x where x: "is_top q x" by blast
    show ?thesis
    proof (cases "freq t \<le> freq x")
      case True
      with x have "is_top (t # q) t" by (fastforce simp: is_top_iff)
      then show ?thesis ..
    next
      case False
      with x have "is_top (t # q) x" by (fastforce simp: is_top_iff)
      then show ?thesis ..
    qed
  qed
qed

lemma is_top_member: "is_top q x \<Longrightarrow> x \<in> set q"
  by (simp add: is_top_iff)

lemma length_after_pops:
  "is_top q l \<Longrightarrow> is_top (pop l q) r \<Longrightarrow> length (push (merged l r) (pop r (pop l q))) = length q - 1"
proof -
  assume "is_top q l" "is_top (pop l q) r"
  then have l: "l \<in> set q" and r: "r \<in> set (remove1 l q)"
    by (auto simp: pop_def dest: is_top_member)
  from r have "0 < length (remove1 l q)" by (rule length_pos_if_in_set)
  with l r show ?thesis by (simp add: push_def pop_def length_remove1)
qed

lemma merge_loop_total: "\<exists>q'. merge_loop q q'"
proof (induction "length q" arbitrary: q rule: less_induct)
  case less
  show ?case
  proof (cases "1 < length q")
    case False
    then show ?thesis by (blast intro: merge_loop.exit)
  next
    case True
    then have "q \<noteq> []" by auto
    then obtain l where l: "is_top q l" using exists_top by blast
    from True l have "pop l q \<noteq> []"
      by (cases q) (auto simp: pop_def split: if_splits)
    then obtain r where r: "is_top (pop l q) r" using exists_top by blast
    have "length (push (merged l r) (pop r (pop l q))) < length q"
      using length_after_pops [OF l r] True by simp
    from less [OF this] obtain q' where "merge_loop (push (merged l r) (pop r (pop l q))) q'" ..
    with True l r show ?thesis by (blast intro: merge_loop.iterate)
  qed
qed

lemma merge_loop_invariant:
  assumes "merge_loop q q'" and "I q"
    and "\<And>q l r. I q \<Longrightarrow> 1 < length q \<Longrightarrow> is_top q l \<Longrightarrow> is_top (pop l q) r \<Longrightarrow>
           I (push (merged l r) (pop r (pop l q)))"
  shows "I q'"
  using assms(1,2)
proof (induction rule: merge_loop.induct)
  case (exit minHeap)
  then show ?case by simp
next
  case (iterate minHeap l r minHeap')
  from assms(3) [OF iterate.prems iterate.hyps(1,2,3)] show ?case by (rule iterate.IH)
qed

lemma merge_loop_result: "merge_loop q q' \<Longrightarrow> \<not> 1 < length q'"
  by (induction rule: merge_loop.induct) auto

lemma merge_loop_nonempty: "merge_loop q q' \<Longrightarrow> q \<noteq> [] \<Longrightarrow> q' \<noteq> []"
  by (induction rule: merge_loop.induct) (auto simp: push_def)

lemma merge_loop_singleton:
  assumes "merge_loop q q'" "q \<noteq> []" shows "\<exists>t. q' = [t]"
proof -
  from assms have "q' \<noteq> []" by (rule merge_loop_nonempty)
  moreover from assms(1) have "length q' \<le> 1" using merge_loop_result by fastforce
  ultimately show ?thesis by (cases q') auto
qed

lemma merge_loop_Nil: "merge_loop [] q' \<longleftrightarrow> q' = []"
  by (auto elim: merge_loop.cases intro: merge_loop.exit)

lemma push_all_set: "set (push_all fs q) = set q \<union> (\<lambda>x. new_Node (fst x) (snd x)) ` set fs"
  by (induction fs arbitrary: q) (auto simp: push_def)

lemma push_all_length: "length (push_all fs q) = length q + length fs"
  by (induction fs arbitrary: q) (auto simp: push_def)

lemma build_total: "\<exists>r. buildHuffmanTree fs r"
proof -
  obtain q' where q': "merge_loop (push_all fs []) q'" using merge_loop_total by blast
  show ?thesis
  proof (cases "q' = []")
    case True
    with q' show ?thesis by (blast intro: buildHuffmanTree.empty)
  next
    case False
    then obtain t where "is_top q' t" using exists_top by blast
    with q' show ?thesis by (blast intro: buildHuffmanTree.root)
  qed
qed

lemma build_cases:
  "buildHuffmanTree fs r \<longleftrightarrow>
     (fs = [] \<and> r = Inl Top_of_empty_queue) \<or>
     (fs \<noteq> [] \<and> (\<exists>t. r = Inr t \<and> merge_loop (push_all fs []) [t]))"
proof
  assume "buildHuffmanTree fs r"
  then show "(fs = [] \<and> r = Inl Top_of_empty_queue) \<or>
     (fs \<noteq> [] \<and> (\<exists>t. r = Inr t \<and> merge_loop (push_all fs []) [t]))"
  proof cases
    case empty
    have "fs = []"
    proof (rule ccontr)
      assume "fs \<noteq> []"
      then have "push_all fs [] \<noteq> []" using push_all_length [of fs "[]"] by auto
      with empty(2) show False using merge_loop_nonempty by blast
    qed
    with empty show ?thesis by simp
  next
    case (root minHeap t)
    then have "minHeap \<noteq> []" by (auto simp: is_top_iff)
    have "fs \<noteq> []"
    proof
      assume "fs = []"
      with root(2) have "minHeap = []" by (simp add: merge_loop_Nil)
      with \<open>minHeap \<noteq> []\<close> show False by simp
    qed
    then have "push_all fs [] \<noteq> []" using push_all_length [of fs "[]"] by auto
    with root(2) obtain t' where "minHeap = [t']" using merge_loop_singleton by blast
    with root \<open>fs \<noteq> []\<close> show ?thesis by (auto simp: is_top_iff)
  qed
next
  assume "(fs = [] \<and> r = Inl Top_of_empty_queue) \<or>
     (fs \<noteq> [] \<and> (\<exists>t. r = Inr t \<and> merge_loop (push_all fs []) [t]))"
  then show "buildHuffmanTree fs r"
  proof
    assume "fs = [] \<and> r = Inl Top_of_empty_queue"
    moreover have "merge_loop (push_all [] []) []" by (simp add: merge_loop_Nil)
    ultimately show ?thesis by (auto intro: buildHuffmanTree.empty)
  next
    assume "fs \<noteq> [] \<and> (\<exists>t. r = Inr t \<and> merge_loop (push_all fs []) [t])"
    then obtain t where "r = Inr t" "merge_loop (push_all fs []) [t]" by blast
    moreover have "is_top [t] t" by (simp add: is_top_iff)
    ultimately show ?thesis by (auto intro: buildHuffmanTree.root)
  qed
qed

text \<open>
  The outcomes of the builder do not depend on the order in which the table is iterated:
  two tables with the same entries have the same outcomes.
\<close>

lemma is_top_mset: "mset q = mset p \<Longrightarrow> is_top q x \<longleftrightarrow> is_top p x"
  by (auto simp: is_top_iff dest: mset_eq_setD)

lemma merge_loop_order_irrelevant:
  "merge_loop q q' \<Longrightarrow> mset q = mset p \<Longrightarrow> \<exists>p'. merge_loop p p' \<and> mset p' = mset q'"
proof (induction arbitrary: p rule: merge_loop.induct)
  case (exit minHeap)
  from exit.prems have "length p = length minHeap" by (metis size_mset)
  with exit.hyps have "merge_loop p p" by (simp add: merge_loop.exit)
  with exit.prems show ?case by auto
next
  case (iterate minHeap l r minHeap')
  from iterate.prems have len: "length p = length minHeap" by (metis size_mset)
  have l: "is_top p l" using iterate.hyps(2) is_top_mset [OF iterate.prems] by blast
  have eq1: "mset (pop l minHeap) = mset (pop l p)"
    using iterate.prems by (simp add: pop_def)
  then have r: "is_top (pop l p) r" using iterate.hyps(3) is_top_mset by blast
  have "mset (push (merged l r) (pop r (pop l minHeap))) = mset (push (merged l r) (pop r (pop l p)))"
    using eq1 by (simp add: push_def pop_def)
  from iterate.IH [OF this] obtain p' where
    p': "merge_loop (push (merged l r) (pop r (pop l p))) p'" "mset p' = mset minHeap'" by blast
  from iterate.hyps(1) len have "1 < length p" by simp
  from merge_loop.iterate [OF this l r p'(1)] p'(2) show ?case by blast
qed

lemma push_all_mset: "mset (push_all fs q) = mset q + image_mset (\<lambda>x. new_Node (fst x) (snd x)) (mset fs)"
  by (induction fs arbitrary: q) (simp_all add: push_def)

lemma build_order_irrelevant:
  assumes "mset fs = mset fs'" "buildHuffmanTree fs r"
  shows "buildHuffmanTree fs' r"
proof -
  have len: "length fs = length fs'" using assms(1) by (metis size_mset)
  have eq: "mset (push_all fs []) = mset (push_all fs' [])"
    using assms(1) by (simp add: push_all_mset)
  from assms(2) consider "fs = []" "r = Inl Top_of_empty_queue"
    | t where "fs \<noteq> []" "r = Inr t" "merge_loop (push_all fs []) [t]"
    by (auto simp: build_cases)
  then show ?thesis
  proof cases
    case 1
    with len show ?thesis by (simp add: build_cases)
  next
    case 2
    from merge_loop_order_irrelevant [OF 2(3) eq] obtain p' where
      "merge_loop (push_all fs' []) p'" "mset p' = mset [t]" by blast
    moreover from this(2) have "p' = [t]" by (metis mset_single_iff_right)
    moreover from 2(1) len have "fs' \<noteq> []" by auto
    ultimately show ?thesis using 2(2) by (auto simp: build_cases)
  qed
qed

section \<open>The shape of the trees in the queue\<close>

lemma strict_merged: "strict l \<Longrightarrow> strict r \<Longrightarrow> strict (merged l r)"
  by (simp add: merged_def strict.inner)

lemma strict_new_Node: "strict (new_Node c f)"
  by (simp add: new_Node_def strict.leaf)

lemma leaves_path:
  "strict t \<Longrightarrow> leaves t p = map (\<lambda>(c, f, s). (c, f, p @ s)) (leaves t [])"
proof (induction arbitrary: p rule: strict.induct)
  case (leaf c f)
  show ?case by simp
next
  case (inner l r c f)
  have "leaves l (p @ ''0'') = map (\<lambda>(c, f, s). (c, f, p @ s)) (leaves l ''0'')"
    by (subst inner.IH(1) [of "p @ ''0''"], subst inner.IH(1) [of "''0''"]) (simp add: case_prod_unfold)
  moreover have "leaves r (p @ ''1'') = map (\<lambda>(c, f, s). (c, f, p @ s)) (leaves r ''1'')"
    by (subst inner.IH(2) [of "p @ ''1''"], subst inner.IH(2) [of "''1''"]) (simp add: case_prod_unfold)
  ultimately show ?case by simp
qed

lemma leaves_inner:
  assumes "strict l" "strict r"
  shows "leaves (Node c f (Some l) (Some r)) [] =
     map (\<lambda>(c, f, s). (c, f, CHR ''0'' # s)) (leaves l []) @
     map (\<lambda>(c, f, s). (c, f, CHR ''1'' # s)) (leaves r [])"
  using leaves_path [OF assms(1), of "''0''"] leaves_path [OF assms(2), of "''1''"] by simp

lemma leaves_leaf: "leaves (Node c f None None) p = [(c, f, p)]"
  by simp

lemma counts_of_merged:
  "strict l \<Longrightarrow> strict r \<Longrightarrow> counts_of (merged l r) = counts_of l @ counts_of r"
  by (simp add: counts_of_def merged_def leaves_inner case_prod_unfold comp_def del: leaves.simps)

lemma counts_of_new_Node: "counts_of (new_Node c f) = [(c, f)]"
  by (simp add: counts_of_def new_Node_def)

lemma leaves_nonempty: "strict t \<Longrightarrow> leaves t [] \<noteq> []"
proof (induction rule: strict.induct)
  case (leaf c f)
  show ?case by simp
next
  case (inner l r c f)
  then show ?case by (simp add: leaves_inner del: leaves.simps)
qed

lemma tops_member:
  assumes "is_top q l" "is_top (pop l q) r"
  shows "l \<in> set q" and "r \<in> set (remove1 l q)" and "r \<in> set q"
proof -
  show "l \<in> set q" using assms(1) by (rule is_top_member)
  show r: "r \<in> set (remove1 l q)" using assms(2) by (auto simp: pop_def dest: is_top_member)
  then show "r \<in> set q" using set_remove1_subset by fast
qed

lemma strict_leaf_iff: "strict t \<Longrightarrow> is_leaf t \<longleftrightarrow> length (leaves t []) = 1"
proof (induction rule: strict.induct)
  case (leaf c f)
  show ?case by (simp add: is_leaf_def)
next
  case (inner l r c f)
  have "leaves l [] \<noteq> []" "leaves r [] \<noteq> []"
    using inner.hyps by (simp_all add: leaves_nonempty)
  then have "2 \<le> length (leaves l []) + length (leaves r [])"
    by (cases "leaves l []"; cases "leaves r []") auto
  then show ?case
    using inner.hyps by (simp add: is_leaf_def leaves_inner del: leaves.simps)
qed

lemma forest_counts_remove1:
  "x \<in> set q \<Longrightarrow> forest_counts q = mset (counts_of x) + forest_counts (remove1 x q)"
  unfolding forest_counts_def by (rule sum_list_map_remove1)

lemma strict_step:
  assumes "\<forall>t\<in>set q. strict t" "is_top q l" "is_top (pop l q) r"
  shows "\<forall>t\<in>set (push (merged l r) (pop r (pop l q))). strict t"
proof -
  from tops_member [OF assms(2,3)] have "l \<in> set q" "r \<in> set q" by simp_all
  with assms(1) have "strict (merged l r)" by (simp add: strict_merged)
  moreover have "set (pop r (pop l q)) \<subseteq> set q"
    unfolding pop_def by (meson set_remove1_subset subset_trans)
  ultimately show ?thesis using assms(1) by (auto simp: push_def)
qed

lemma counts_step:
  assumes "\<forall>t\<in>set q. strict t" "is_top q l" "is_top (pop l q) r"
  shows "forest_counts (push (merged l r) (pop r (pop l q))) = forest_counts q"
proof -
  from tops_member [OF assms(2,3)]
  have l: "l \<in> set q" and r: "r \<in> set (remove1 l q)" and "r \<in> set q" by simp_all
  with assms(1) have "counts_of (merged l r) = counts_of l @ counts_of r"
    by (simp add: counts_of_merged)
  then have "forest_counts (push (merged l r) (pop r (pop l q))) =
      mset (counts_of l) + (mset (counts_of r) + forest_counts (remove1 r (remove1 l q)))"
    by (simp add: forest_counts_def push_def pop_def)
  also have "\<dots> = forest_counts q"
    using forest_counts_remove1 [OF l] forest_counts_remove1 [OF r] by simp
  finally show ?thesis .
qed

lemma forest_counts_push_all:
  "forest_counts (push_all fs q) = forest_counts q + mset fs"
  by (induction fs arbitrary: q) (simp_all add: forest_counts_def push_def counts_of_new_Node)

lemma strict_push_all: "\<forall>t\<in>set (push_all fs []). strict t"
  by (auto simp: push_all_set strict_new_Node)

lemma merge_loop_shape:
  assumes "merge_loop q q'" "\<forall>t\<in>set q. strict t"
  shows "(\<forall>t\<in>set q'. strict t) \<and> forest_counts q' = forest_counts q"
proof -
  have "(\<forall>t\<in>set q'. strict t) \<and> forest_counts q' = forest_counts q"
    by (rule merge_loop_invariant [OF assms(1),
          where I = "\<lambda>x. (\<forall>t\<in>set x. strict t) \<and> forest_counts x = forest_counts q"])
       (use assms(2) in \<open>auto simp: counts_step dest: strict_step\<close>)
  then show ?thesis .
qed

lemma built_tree_shape:
  assumes "buildHuffmanTree fs (Inr t)"
  shows "strict t" and "mset (counts_of t) = mset fs"
proof -
  from assms have loop: "merge_loop (push_all fs []) [t]" by (auto simp: build_cases)
  from merge_loop_shape [OF loop strict_push_all]
  show "strict t" and "mset (counts_of t) = mset fs"
    by (simp_all add: forest_counts_push_all) (simp_all add: forest_counts_def)
qed

lemma built_tree_keys:
  assumes "buildHuffmanTree fs (Inr t)"
  shows "fst ` set (leaves t []) = fst ` set fs"
proof -
  have "set (counts_of t) = set fs"
    using built_tree_shape(2) [OF assms] by (rule mset_eq_setD)
  then have "fst ` set (counts_of t) = fst ` set fs" by simp
  then show ?thesis by (simp add: counts_of_def image_image case_prod_unfold)
qed

lemma built_tree_inner:
  assumes "buildHuffmanTree fs (Inr t)" "2 \<le> length fs"
  shows "\<not> is_leaf t"
proof -
  have "length (counts_of t) = length fs"
    using built_tree_shape(2) [OF assms(1)] by (rule mset_eq_length)
  with assms(2) have "length (leaves t []) \<noteq> 1" by (simp add: counts_of_def)
  with built_tree_shape(1) [OF assms(1)] show ?thesis by (simp add: strict_leaf_iff)
qed

section \<open>The code map\<close>

lemma codes_of_leaf: "codes_of (Node c f None None) p = [(c, p)]"
  by (simp add: codes_of_def)

lemma codes_of_inner:
  "codes_of (Node c f (Some l) (Some r)) p = codes_of l (p @ ''0'') @ codes_of r (p @ ''1'')"
  by (simp add: codes_of_def)

lemma generate_Node:
  "generateHuffmanCodes (Some (Node c f l r)) code hc =
     generateHuffmanCodes r (code @ ''1'')
       (generateHuffmanCodes l (code @ ''0'')
          (if l = None \<and> r = None then AList.update c code hc else hc))"
  by simp

declare generateHuffmanCodes.simps(2) [simp del]

lemma generate_codes_of:
  "strict t \<Longrightarrow>
   generateHuffmanCodes (Some t) p hc = fold (\<lambda>(c, s). AList.update c s) (codes_of t p) hc"
proof (induction arbitrary: p hc rule: strict.induct)
  case (leaf c f)
  show ?case by (simp add: generate_Node codes_of_leaf)
next
  case (inner l r c f)
  show ?case
    by (simp add: generate_Node codes_of_inner inner.IH)
qed

lemma map_of_fold_update:
  "map_of (fold (\<lambda>(c, s). AList.update c s) xs hc) k =
     (case map_of (rev xs) k of None \<Rightarrow> map_of hc k | Some v \<Rightarrow> Some v)"
proof (induction xs arbitrary: hc)
  case Nil
  show ?case by simp
next
  case (Cons x xs)
  obtain c s where x: "x = (c, s)" by (cases x)
  show ?case
    by (simp add: Cons.IH x update_conv' map_add_def split: option.splits)
qed

lemma code_map_sound:
  assumes "strict t" "map_of (generateHuffmanCodes (Some t) [] []) k = Some v"
  shows "\<exists>f. (k, f, v) \<in> set (leaves t [])"
proof -
  from assms have "map_of (rev (codes_of t [])) k = Some v"
    by (simp add: generate_codes_of map_of_fold_update split: option.splits)
  then have "(k, v) \<in> set (codes_of t [])" by (auto dest: map_of_SomeD)
  then show ?thesis by (auto simp: codes_of_def)
qed

lemma code_map_complete:
  assumes "strict t" "k \<in> fst ` set (leaves t [])"
  shows "\<exists>v. map_of (generateHuffmanCodes (Some t) [] []) k = Some v"
proof -
  from assms(2) have "k \<in> fst ` set (rev (codes_of t []))"
    by (force simp: codes_of_def)
  then have "map_of (rev (codes_of t [])) k \<noteq> None"
    by (simp add: map_of_eq_None_iff)
  with assms(1) show ?thesis
    by (auto simp: generate_codes_of map_of_fold_update split: option.splits)
qed

lemma code_map_keys:
  assumes "strict t"
  shows "fst ` set (generateHuffmanCodes (Some t) [] []) = fst ` set (leaves t [])"
proof -
  have "dom (map_of (generateHuffmanCodes (Some t) [] [])) = fst ` set (leaves t [])"
    using code_map_sound [OF assms] code_map_complete [OF assms] by (force simp: dom_def)
  then show ?thesis by (simp add: dom_map_of_conv_image_fst)
qed

text \<open>Prefix-freeness of the paths to the leaves of a strict tree.\<close>

lemma leaves_prefix_free:
  "strict t \<Longrightarrow> (a, fa, ca) \<in> set (leaves t []) \<Longrightarrow> (b, fb, cb) \<in> set (leaves t []) \<Longrightarrow>
   prefix ca cb \<Longrightarrow> a = b \<and> fa = fb \<and> ca = cb"
proof (induction arbitrary: ca cb rule: strict.induct)
  case (leaf c f)
  then show ?case by simp
next
  case (inner l r c f)
  from inner.prems(1,2) inner.hyps show ?case
    using inner.prems(3) inner.IH
    by (auto simp: leaves_inner simp del: leaves.simps)
qed

section \<open>The decoder on a strict tree\<close>

lemma strict_leaf_cases:
  assumes "strict n"
  obtains (a_leaf) c f where "n = Node c f None None" "is_leaf n"
  | (an_inner) c f l r where "n = Node c f (Some l) (Some r)" "strict l" "strict r" "\<not> is_leaf n"
  using assms by (cases rule: strict.cases) (auto simp: is_leaf_def)

lemma decode_loop_step:
  "decode_loop (b # bits) root out (Some (Node c f (Some l) (Some r))) =
     (let n = (if b = CHR ''0'' then l else r) in
      if is_leaf n then decode_loop bits root (out @ [from_sentinel (ch n)]) root
      else decode_loop bits root out (Some n))"
  by (simp add: from_sentinel_def)

lemma decode_code:
  "strict t \<Longrightarrow> \<not> is_leaf t \<Longrightarrow> (c, f, s) \<in> set (leaves t []) \<Longrightarrow>
   decode_loop (s @ rest) root out (Some t) = decode_loop rest root (out @ [from_sentinel c]) root"
proof (induction arbitrary: s rule: strict.induct)
  case (leaf c' f' s)
  then show ?case by (simp add: is_leaf_def)
next
  case (inner l r c' f' s)
  from inner.prems(2) inner.hyps(1,2)
  consider s' where "s = CHR ''0'' # s'" "(c, f, s') \<in> set (leaves l [])"
    | s' where "s = CHR ''1'' # s'" "(c, f, s') \<in> set (leaves r [])"
    by (auto simp: leaves_inner simp del: leaves.simps)
  then show ?case
  proof cases
    case 1
    show ?thesis
      using inner.hyps(1)
    proof (cases rule: strict_leaf_cases)
      case (a_leaf cl fl)
      with 1 show ?thesis by (simp add: decode_loop_step del: decode_loop.simps)
    next
      case (an_inner cl fl ll lr)
      with 1 inner.IH(1) [of s'] show ?thesis
        by (simp add: decode_loop_step del: decode_loop.simps leaves.simps)
    qed
  next
    case 2
    show ?thesis
      using inner.hyps(2)
    proof (cases rule: strict_leaf_cases)
      case (a_leaf cl fl)
      with 2 show ?thesis by (simp add: decode_loop_step del: decode_loop.simps)
    next
      case (an_inner cl fl ll lr)
      with 2 inner.IH(2) [of s'] show ?thesis
        by (simp add: decode_loop_step del: decode_loop.simps leaves.simps)
    qed
  qed
qed

lemma decode_partial:
  "strict t \<Longrightarrow> (c, f, s) \<in> set (leaves t []) \<Longrightarrow> strict_prefix p s \<Longrightarrow>
   \<exists>n. decode_loop p root out (Some t) = Inr (out, Some n)"
proof (induction arbitrary: s p rule: strict.induct)
  case (leaf c' f' s p)
  then show ?case by simp
next
  case (inner l r c' f' s p)
  show ?case
  proof (cases p)
    case Nil
    then show ?thesis by simp
  next
    case (Cons b p')
    from inner.prems(1) inner.hyps(1,2)
    consider s' where "s = CHR ''0'' # s'" "(c, f, s') \<in> set (leaves l [])"
      | s' where "s = CHR ''1'' # s'" "(c, f, s') \<in> set (leaves r [])"
      by (auto simp: leaves_inner simp del: leaves.simps)
    then show ?thesis
    proof cases
      case 1
      with Cons inner.prems(2) have b: "b = CHR ''0''" and p': "strict_prefix p' s'"
        by (auto simp: strict_prefix_def)
      show ?thesis
        using inner.hyps(1)
    proof (cases rule: strict_leaf_cases)
        case (a_leaf cl fl)
        with 1 p' show ?thesis by simp
      next
        case (an_inner cl fl ll lr)
        with Cons b inner.IH(1) [OF 1(2) p'] show ?thesis
          by (simp add: decode_loop_step del: decode_loop.simps leaves.simps)
      qed
    next
      case 2
      with Cons inner.prems(2) have b: "b = CHR ''1''" and p': "strict_prefix p' s'"
        by (auto simp: strict_prefix_def)
      show ?thesis
        using inner.hyps(2)
    proof (cases rule: strict_leaf_cases)
        case (a_leaf cl fl)
        with 2 p' show ?thesis by simp
      next
        case (an_inner cl fl ll lr)
        with Cons b inner.IH(2) [OF 2(2) p'] show ?thesis
          by (simp add: decode_loop_step del: decode_loop.simps leaves.simps)
      qed
    qed
  qed
qed

lemma decode_loop_total:
  "strict t \<Longrightarrow> \<not> is_leaf t \<Longrightarrow> strict n \<Longrightarrow> \<not> is_leaf n \<Longrightarrow>
   \<exists>res. decode_loop bits (Some t) out (Some n) = Inr res"
proof (induction bits arbitrary: out n)
  case Nil
  show ?case by simp
next
  case (Cons b bits)
  from Cons.prems(3,4) obtain c f l r where n: "n = Node c f (Some l) (Some r)" "strict l" "strict r"
    by (auto elim: strict_leaf_cases)
  define k where "k = (if b = CHR ''0'' then l else r)"
  with n have k: "strict k" by simp
  show ?case
  proof (cases "is_leaf k")
    case True
    with Cons.IH [OF Cons.prems(1,2) Cons.prems(1,2)] n k_def show ?thesis
      by (simp add: decode_loop_step Let_def del: decode_loop.simps)
  next
    case False
    with Cons.IH [OF Cons.prems(1,2) k False] n k_def show ?thesis
      by (simp add: decode_loop_step Let_def del: decode_loop.simps)
  qed
qed

lemma decode_total:
  assumes "strict t" "\<not> is_leaf t"
  shows "\<exists>out. decode bits (Some t) = Inr out"
proof -
  obtain res where "decode_loop bits (Some t) [] (Some t) = Inr res"
    using decode_loop_total [OF assms assms] by blast
  then show ?thesis by (cases res) (simp add: decode_def)
qed

section \<open>Encoding and decoding a whole input\<close>

lemma encode_loop_concat:
  "\<forall>c\<in>set input. map_of hc (to_sentinel c) \<noteq> None \<Longrightarrow>
   encode_loop input hc acc =
     Inr (acc @ concat (map (\<lambda>c. the (map_of hc (to_sentinel c))) input))"
proof (induction input arbitrary: acc)
  case Nil
  show ?case by simp
next
  case (Cons c input)
  from Cons.prems obtain v where v: "map_of hc (to_sentinel c) = Some v" by auto
  then have "(if c = CHR '' '' then at_key hc CHR ''-'' else at_key hc c) = Inr v"
    by (auto simp: at_key_def to_sentinel_def split: if_splits)
  with Cons v show ?case by simp
qed

lemma decode_loop_concat:
  assumes "strict t" "\<not> is_leaf t"
    and "\<forall>c\<in>set input. \<exists>f. (to_sentinel c, f, code c) \<in> set (leaves t [])"
  shows "decode_loop (concat (map code input) @ rest) (Some t) out (Some t) =
     decode_loop rest (Some t) (out @ map (\<lambda>c. from_sentinel (to_sentinel c)) input) (Some t)"
  using assms(3)
proof (induction input arbitrary: out)
  case Nil
  show ?case by simp
next
  case (Cons c input)
  from Cons.prems obtain f where "(to_sentinel c, f, code c) \<in> set (leaves t [])" by auto
  from decode_code [OF assms(1,2) this]
  have "decode_loop (code c @ concat (map code input) @ rest) (Some t) out (Some t) =
      decode_loop (concat (map code input) @ rest) (Some t)
        (out @ [from_sentinel (to_sentinel c)]) (Some t)" .
  with Cons show ?case by simp
qed

lemma from_to_sentinel: "from_sentinel (to_sentinel c) = from_sentinel c"
  by (simp add: from_sentinel_def to_sentinel_def)

section \<open>One round on an input with at least two symbols\<close>

lemma two_symbols_table:
  assumes "a \<in> set input" "b \<in> set input" "to_sentinel a \<noteq> to_sentinel b"
  shows "2 \<le> length (buildFrequencyTable input)"
proof -
  let ?m = "buildFrequencyTable input"
  have "{to_sentinel a, to_sentinel b} \<subseteq> set (map fst ?m)"
    using assms(1,2) table_keys [of input] by auto
  then have "card {to_sentinel a, to_sentinel b} \<le> card (set (map fst ?m))"
    by (intro card_mono) simp_all
  also have "\<dots> \<le> length (map fst ?m)" by (rule card_length)
  finally show ?thesis using assms(3) by simp
qed

lemma round_trip_general:
  assumes built: "buildHuffmanTree (buildFrequencyTable input) (Inr t)"
    and two: "2 \<le> length (buildFrequencyTable input)"
    and p: "p = [] \<or> (\<exists>k v. map_of (generateHuffmanCodes (Some t) [] []) k = Some v \<and> strict_prefix p v)"
  shows "\<exists>enc. encode input (generateHuffmanCodes (Some t) [] []) = Inr enc \<and>
           decode (enc @ p) (Some t) = Inr (map from_sentinel input)"
proof -
  let ?hc = "generateHuffmanCodes (Some t) [] []"
  let ?code = "\<lambda>c. the (map_of ?hc (to_sentinel c))"
  have strict: "strict t" using built by (rule built_tree_shape)
  have inner: "\<not> is_leaf t" using built two by (rule built_tree_inner)
  have keys: "fst ` set (leaves t []) = to_sentinel ` set input"
    using built_tree_keys [OF built] by (simp add: table_keys)
  have present: "\<forall>c\<in>set input. map_of ?hc (to_sentinel c) \<noteq> None"
    using code_map_complete [OF strict] keys by fastforce
  have at_leaf: "\<forall>c\<in>set input. \<exists>f. (to_sentinel c, f, ?code c) \<in> set (leaves t [])"
  proof
    fix c assume "c \<in> set input"
    with present obtain v where "map_of ?hc (to_sentinel c) = Some v" by auto
    with code_map_sound [OF strict this] show "\<exists>f. (to_sentinel c, f, ?code c) \<in> set (leaves t [])"
      by simp
  qed
  have enc: "encode input ?hc = Inr (concat (map ?code input))"
    using encode_loop_concat [OF present, of "[]"] by (simp add: encode_def)
  have "\<exists>n. decode_loop p (Some t) (map from_sentinel input) (Some t) =
      Inr (map from_sentinel input, n)"
    using p
  proof
    assume "p = []"
    then show ?thesis by simp
  next
    assume "\<exists>k v. map_of ?hc k = Some v \<and> strict_prefix p v"
    then obtain k v where kv: "map_of ?hc k = Some v" "strict_prefix p v" by blast
    from code_map_sound [OF strict kv(1)] obtain f where "(k, f, v) \<in> set (leaves t [])" ..
    from decode_partial [OF strict this kv(2)] show ?thesis by blast
  qed
  then obtain n where
    "decode_loop p (Some t) (map from_sentinel input) (Some t) = Inr (map from_sentinel input, n)" ..
  with decode_loop_concat [OF strict inner at_leaf, of p "[]"]
  have "decode (concat (map ?code input) @ p) (Some t) = Inr (map from_sentinel input)"
    by (simp add: decode_def from_to_sentinel)
  with enc show ?thesis by blast
qed

lemma build_inr_total: "fs \<noteq> [] \<Longrightarrow> \<exists>t. buildHuffmanTree fs (Inr t)"
  using build_total [of fs] by (auto simp: build_cases)

lemma table_nonempty: "input \<noteq> [] \<Longrightarrow> buildFrequencyTable input \<noteq> []"
  using table_keys [of input] by (cases "buildFrequencyTable input") auto

lemma main_round_two_symbols:
  assumes "a \<in> set input" "b \<in> set input" "to_sentinel a \<noteq> to_sentinel b"
  shows "\<exists>r. main_round input r"
    and "main_round input r \<Longrightarrow> \<exists>enc. r = Inr (enc, map from_sentinel input)"
proof -
  have two: "2 \<le> length (buildFrequencyTable input)" using assms by (rule two_symbols_table)
  then have ne: "buildFrequencyTable input \<noteq> []" by auto
  then obtain t where t: "buildHuffmanTree (buildFrequencyTable input) (Inr t)"
    using build_inr_total by blast
  from round_trip_general [OF t two, of "[]"] obtain enc where
    "encode input (generateHuffmanCodes (Some t) [] []) = Inr enc"
    "decode enc (Some t) = Inr (map from_sentinel input)" by auto
  with t have "main_round input (Inr (enc, map from_sentinel input))"
    by (rule main_round.decoded)
  then show "\<exists>r. main_round input r" ..
  show "\<exists>enc. r = Inr (enc, map from_sentinel input)" if "main_round input r"
    using that
  proof cases
    case (no_tree e)
    with ne show ?thesis by (simp add: build_cases)
  next
    case (no_encoding t e)
    with round_trip_general [OF no_encoding(2) two, of "[]"] show ?thesis by auto
  next
    case (no_decoding t enc e)
    with round_trip_general [OF no_decoding(2) two, of "[]"] show ?thesis by auto
  next
    case (decoded t enc dec)
    with round_trip_general [OF decoded(2) two, of "[]"] show ?thesis by auto
  qed
qed

text \<open>One round on an input with a single symbol, and on the empty input.\<close>

lemma single_table:
  assumes "distinct (map fst m)" "fst ` set m = {c}"
  shows "m = [(c, sum_list (map snd m))]"
proof -
  have "set (map fst m) = {c}" using assms by simp
  moreover have "card (set (map fst m)) = length (map fst m)"
    using assms(1) by (rule distinct_card)
  ultimately have "length (map fst m) = 1" by simp
  then obtain x where "m = [x]" by (cases m) auto
  with assms(2) show ?thesis by (cases x) simp
qed

lemma table_single_symbol:
  assumes "input \<noteq> []" "\<forall>x\<in>set input. to_sentinel x = c"
  shows "\<exists>n. buildFrequencyTable input = [(c, n)]"
proof -
  have "fst ` set (buildFrequencyTable input) = {c}"
    using assms by (cases input) (auto simp: table_keys)
  from single_table [OF table_distinct this] show ?thesis ..
qed

lemma merge_loop_short: "length q \<le> 1 \<Longrightarrow> merge_loop q q' \<longleftrightarrow> q' = q"
  by (auto elim: merge_loop.cases intro: merge_loop.exit)

lemma build_single: "buildHuffmanTree [(c, f)] r \<longleftrightarrow> r = Inr (Node c f None None)"
  by (auto simp: build_cases push_def new_Node_def merge_loop_short)

lemma encode_single:
  "\<forall>x\<in>set input. to_sentinel x = c \<Longrightarrow> encode_loop input [(c, [])] acc = Inr acc"
  by (induction input arbitrary: acc) (auto simp: at_key_def to_sentinel_def split: if_splits)

lemma main_round_single_symbol:
  assumes "input \<noteq> []" "\<forall>x\<in>set input. to_sentinel x = c"
  shows "main_round input r \<longleftrightarrow> r = Inr ([], [])"
proof -
  from table_single_symbol [OF assms] obtain n where
    tab: "buildFrequencyTable input = [(c, n)]" ..
  let ?t = "Node c n None None"
  have gen: "generateHuffmanCodes (Some ?t) [] [] = [(c, [])]"
    by (simp add: generate_Node)
  have enc: "encode input [(c, [])] = Inr []"
    using encode_single [OF assms(2)] by (simp add: encode_def)
  have dec: "decode [] (Some ?t) = Inr []" by (simp add: decode_def)
  show ?thesis
  proof
    assume "main_round input r"
    then show "r = Inr ([], [])"
      by cases (simp_all add: tab build_single gen enc dec)
  next
    assume "r = Inr ([], [])"
    moreover have "buildHuffmanTree (buildFrequencyTable input) (Inr ?t)"
      by (simp add: tab build_single)
    ultimately show "main_round input r"
      using main_round.decoded [of input ?t "[]" "[]"] by (simp add: gen enc dec)
  qed
qed

lemma main_round_empty: "main_round [] r \<longleftrightarrow> r = Inl Top_of_empty_queue"
proof
  assume "main_round [] r"
  then show "r = Inl Top_of_empty_queue"
    by cases (simp_all add: buildFrequencyTable_def build_cases)
next
  assume "r = Inl Top_of_empty_queue"
  then show "main_round [] r"
    by (simp add: main_round.no_tree buildFrequencyTable_def build_cases)
qed

section \<open>Two concrete runs of the builder\<close>

lemma merge_loop_iterate_to:
  assumes "1 < length q" "is_top q l" "is_top (pop l q) r"
    and "push (merged l r) (pop r (pop l q)) = q1" "merge_loop q1 q'"
  shows "merge_loop q q'"
  using assms by (auto intro: merge_loop.iterate)

lemma table_a_b: "buildFrequencyTable ''a b'' = [(CHR ''a'', 1), (CHR ''-'', 1), (CHR ''b'', 1)]"
  by (simp add: buildFrequencyTable_def increment_def int32_def)

lemma build_a_b:
  "buildHuffmanTree (buildFrequencyTable ''a b'')
     (Inr (Node (CHR 0x00) 3 (Some (Node CHR ''a'' 1 None None))
        (Some (Node (CHR 0x00) 2 (Some (Node CHR ''b'' 1 None None))
           (Some (Node CHR ''-'' 1 None None))))))"
proof -
  let ?a = "Node CHR ''a'' 1 None None" and ?b = "Node CHR ''b'' 1 None None"
    and ?s = "Node CHR ''-'' 1 None None"
  let ?m = "Node (CHR 0x00) 2 (Some ?b) (Some ?s)"
  let ?t = "Node (CHR 0x00) 3 (Some ?a) (Some ?m)"
  have "merge_loop [?t] [?t]" by (simp add: merge_loop_short)
  then have "merge_loop [?m, ?a] [?t]"
    by (rule merge_loop_iterate_to [where l = ?a and r = ?m, rotated -1])
       (simp_all add: is_top_iff pop_def push_def merged_def int32_def)
  then have "merge_loop [?b, ?s, ?a] [?t]"
    by (rule merge_loop_iterate_to [where l = ?b and r = ?s, rotated -1])
       (simp_all add: is_top_iff pop_def push_def merged_def int32_def)
  then show ?thesis
    by (simp add: build_cases table_a_b push_def new_Node_def)
qed

lemma table_abbcccc:
  "buildFrequencyTable ''abbcccc'' = [(CHR ''a'', 1), (CHR ''b'', 2), (CHR ''c'', 4)]"
  by (simp add: buildFrequencyTable_def increment_def int32_def)

lemma build_abbcccc:
  "buildHuffmanTree (buildFrequencyTable ''abbcccc'')
     (Inr (Node (CHR 0x00) 7
        (Some (Node (CHR 0x00) 3 (Some (Node CHR ''a'' 1 None None))
           (Some (Node CHR ''b'' 2 None None))))
        (Some (Node CHR ''c'' 4 None None))))"
proof -
  let ?a = "Node CHR ''a'' 1 None None" and ?b = "Node CHR ''b'' 2 None None"
    and ?c = "Node CHR ''c'' 4 None None"
  let ?m = "Node (CHR 0x00) 3 (Some ?a) (Some ?b)"
  let ?t = "Node (CHR 0x00) 7 (Some ?m) (Some ?c)"
  have "merge_loop [?t] [?t]" by (simp add: merge_loop_short)
  then have "merge_loop [?m, ?c] [?t]"
    by (rule merge_loop_iterate_to [where l = ?m and r = ?c, rotated -1])
       (simp_all add: is_top_iff pop_def push_def merged_def int32_def)
  then have "merge_loop [?c, ?b, ?a] [?t]"
    by (rule merge_loop_iterate_to [where l = ?a and r = ?b, rotated -1])
       (simp_all add: is_top_iff pop_def push_def merged_def int32_def)
  then show ?thesis
    by (simp add: build_cases table_abbcccc push_def new_Node_def)
qed

lemma build_abbcccc_only:
  assumes "buildHuffmanTree (buildFrequencyTable ''abbcccc'') r"
  shows "r = Inr (Node (CHR 0x00) 7
        (Some (Node (CHR 0x00) 3 (Some (Node CHR ''a'' 1 None None))
           (Some (Node CHR ''b'' 2 None None))))
        (Some (Node CHR ''c'' 4 None None)))"
proof -
  let ?a = "Node CHR ''a'' 1 None None" and ?b = "Node CHR ''b'' 2 None None"
    and ?c = "Node CHR ''c'' 4 None None"
  let ?m = "Node (CHR 0x00) 3 (Some ?a) (Some ?b)"
  let ?t = "Node (CHR 0x00) 7 (Some ?m) (Some ?c)"
  from assms obtain t where t: "r = Inr t" "merge_loop [?c, ?b, ?a] [t]"
    by (auto simp: build_cases table_abbcccc push_def new_Node_def)
  from t(2) have "merge_loop [?m, ?c] [t]"
    by (cases rule: merge_loop.cases) (auto simp: is_top_iff pop_def push_def merged_def int32_def)
  then have "merge_loop [?t] [t]"
    by (cases rule: merge_loop.cases) (auto simp: is_top_iff pop_def push_def merged_def int32_def)
  then have "t = ?t" by (simp add: merge_loop_short)
  with t(1) show ?thesis by simp
qed

lemma codes_abbcccc:
  "generateHuffmanCodes
     (Some (Node (CHR 0x00) 7
        (Some (Node (CHR 0x00) 3 (Some (Node CHR ''a'' 1 None None))
           (Some (Node CHR ''b'' 2 None None))))
        (Some (Node CHR ''c'' 4 None None)))) [] [] =
   [(CHR ''a'', ''00''), (CHR ''b'', ''01''), (CHR ''c'', ''1'')]"
  by (simp add: generate_Node)

section \<open>The claims about the codec\<close>

text \<open>
  C1. The round trip fails on the inputs the claim names in particular. On the empty
  input the builder reads the top of an empty queue. On every non-empty input with a
  single symbol after the substitution (length 1, or all characters identical) the
  only code is the empty string, the encoded string is empty and so is the decoded
  one, which differs from the input.
\<close>

theorem round_trip_single_symbol:
  "(main_round [] r \<longleftrightarrow> r = Inl Top_of_empty_queue) \<and>
   (input \<noteq> [] \<longrightarrow> (\<forall>x\<in>set input. to_sentinel x = c) \<longrightarrow>
      (main_round input r \<longleftrightarrow> r = Inr ([], [])))"
  using main_round_empty [of r] main_round_single_symbol [of input c r] by blast

theorem round_trip_single_symbol_witness:
  "main_round ''a'' (Inr ([], [])) \<and> \<not> main_round ''a'' (Inr ([], ''a''))"
  using round_trip_single_symbol [of "Inr ([], [])" "''a''" "CHR ''a''"]
    round_trip_single_symbol [of "Inr ([], ''a'')" "''a''" "CHR ''a''"]
  by (simp add: to_sentinel_def)

text \<open>
  C2. On the input \<open>aaaa\<close> the table has the one entry \<open>(a, 4)\<close>, the tree is the
  single leaf, the code map has one entry and its code is the empty string; the
  encoded string is empty and decodes to the empty string, not to the input.
\<close>

theorem single_symbol_aaaa:
  "buildFrequencyTable ''aaaa'' = [(CHR ''a'', 4)] \<and>
   (\<forall>r. buildHuffmanTree [(CHR ''a'', 4)] r \<longleftrightarrow> r = Inr (Node CHR ''a'' 4 None None)) \<and>
   generateHuffmanCodes (Some (Node CHR ''a'' 4 None None)) [] [] = [(CHR ''a'', [])] \<and>
   encode ''aaaa'' [(CHR ''a'', [])] = Inr [] \<and>
   decode [] (Some (Node CHR ''a'' 4 None None)) = Inr []"
  by (simp add: buildFrequencyTable_def increment_def int32_def build_single generate_Node encode_def
      at_key_def decode_def)

text \<open>
  C3. Given the empty table, which is the table of the empty input, the builder has
  one outcome: \<^verbatim>\<open>top()\<close> of the empty queue, which is undefined behaviour. No error
  is signalled.
\<close>

theorem empty_table_top_of_empty_queue:
  "buildFrequencyTable [] = [] \<and>
   (\<forall>r. buildHuffmanTree [] r \<longleftrightarrow> r = Inl Top_of_empty_queue)"
  by (simp add: buildFrequencyTable_def build_cases)

text \<open>
  C5. In the code map of every tree the builder returns, of two distinct symbols
  neither has a code that is a prefix of the other's.
\<close>

theorem code_map_prefix_free:
  assumes "buildHuffmanTree frequency (Inr t)"
    and "map_of (generateHuffmanCodes (Some t) [] []) a = Some ca"
    and "map_of (generateHuffmanCodes (Some t) [] []) b = Some cb"
    and "a \<noteq> b"
  shows "\<not> prefix ca cb \<and> \<not> prefix cb ca"
proof -
  have strict: "strict t" using assms(1) by (rule built_tree_shape)
  from code_map_sound [OF strict assms(2)] obtain fa where a: "(a, fa, ca) \<in> set (leaves t [])" ..
  from code_map_sound [OF strict assms(3)] obtain fb where b: "(b, fb, cb) \<in> set (leaves t [])" ..
  from leaves_prefix_free [OF strict a b] leaves_prefix_free [OF strict b a] assms(4)
  show ?thesis by blast
qed

theorem code_map_prefix_free_witness:
  "buildHuffmanTree (buildFrequencyTable ''abbcccc'')
     (Inr (Node (CHR 0x00) 7
        (Some (Node (CHR 0x00) 3 (Some (Node CHR ''a'' 1 None None))
           (Some (Node CHR ''b'' 2 None None))))
        (Some (Node CHR ''c'' 4 None None)))) \<and>
   map_of (generateHuffmanCodes
     (Some (Node (CHR 0x00) 7
        (Some (Node (CHR 0x00) 3 (Some (Node CHR ''a'' 1 None None))
           (Some (Node CHR ''b'' 2 None None))))
        (Some (Node CHR ''c'' 4 None None)))) [] []) CHR ''a'' = Some ''00'' \<and>
   map_of (generateHuffmanCodes
     (Some (Node (CHR 0x00) 7
        (Some (Node (CHR 0x00) 3 (Some (Node CHR ''a'' 1 None None))
           (Some (Node CHR ''b'' 2 None None))))
        (Some (Node CHR ''c'' 4 None None)))) [] []) CHR ''c'' = Some ''1'' \<and>
   CHR ''a'' \<noteq> CHR ''c'' \<and>
   \<not> prefix ''00'' ''1'' \<and> \<not> prefix ''1'' ''00''"
  using code_map_prefix_free [OF build_abbcccc, of "CHR ''a''" "''00''" "CHR ''c''" "''1''"]
    build_abbcccc
  by (simp add: codes_abbcccc)

text \<open>
  C7. The input \<open>a b\<close> has a round, and every round of it, whatever the order in
  which the queue hands out nodes of equal count, decodes to exactly \<open>a b\<close>.
\<close>

theorem sentinel_round_trip:
  "(\<exists>r. main_round ''a b'' r) \<and>
   (\<forall>r. main_round ''a b'' r \<longrightarrow> (\<exists>enc. r = Inr (enc, ''a b'')))"
proof -
  have *: "CHR ''a'' \<in> set ''a b''" "CHR ''b'' \<in> set ''a b''"
    "to_sentinel CHR ''a'' \<noteq> to_sentinel CHR ''b''"
    by (simp_all add: to_sentinel_def)
  have "map from_sentinel ''a b'' = ''a b''" by (simp add: from_sentinel_def)
  with main_round_two_symbols [OF *] show ?thesis by auto
qed

theorem sentinel_round_trip_witness:
  "main_round ''a b'' (Inr (''01110'', ''a b'')) \<and>
   (\<exists>enc. (Inr (''01110'', ''a b'') :: fault + string \<times> string) = Inr (enc, ''a b''))"
proof -
  have "main_round ''a b'' (Inr (''01110'', ''a b''))"
    by (rule main_round.decoded [OF build_a_b])
       (simp_all add: generate_Node encode_def at_key_def decode_def is_leaf_def)
  with sentinel_round_trip show ?thesis by blast
qed

section \<open>The sentinel and the literal dash\<close>

text \<open>
  For an input with two or more symbols every round decodes each \<open>-\<close> and each space
  to a space (\<open>main_round_two_symbols\<close>). An input made of dashes and spaces alone has
  the single symbol \<open>-\<close>.
\<close>

text \<open>
  C8. On the input \<open>-\<close> the table has the one entry of \<open>-\<close>, and the one round
  decodes to the empty string: the dash of the input does not appear as a space in the
  decoded output. On the input \<open>- -\<close> the two dashes and the space are merged into
  the entry of \<open>-\<close>, and the decoded output is empty as well.
\<close>

theorem dash_alone_decodes_to_nothing:
  "buildFrequencyTable ''-'' = [(CHR ''-'', 1)] \<and>
   (\<forall>r. main_round ''-'' r \<longleftrightarrow> r = Inr ([], [])) \<and>
   map from_sentinel ''-'' = '' '' \<and>
   buildFrequencyTable ''- -'' = [(CHR ''-'', 3)] \<and>
   (\<forall>r. main_round ''- -'' r \<longleftrightarrow> r = Inr ([], [])) \<and>
   map from_sentinel ''- -'' = ''   ''"
  using main_round_single_symbol [of "''-''" "CHR ''-''"]
    main_round_single_symbol [of "''- -''" "CHR ''-''"]
  by (simp add: buildFrequencyTable_def increment_def int32_def to_sentinel_def
      from_sentinel_def)

section \<open>Bitstrings that are not a whole number of codes\<close>

text \<open>
  C4, as stated: whenever the traversal does not end at the root the decoder fails and
  emits nothing truncated. Under the tree of \<open>abbcccc\<close> (codes \<open>a = 00\<close>, \<open>b = 01\<close>,
  \<open>c = 1\<close>) the bitstring \<open>0\<close> leaves the cursor at the inner node above \<open>a\<close> and
  \<open>b\<close>, and the decoder returns the empty string; the bitstring \<open>000\<close>, one bit
  short of the encoding of \<open>aa\<close>, is decoded to \<open>a\<close>.
\<close>

theorem decode_malformed_counterexample:
  "(\<forall>r. buildHuffmanTree (buildFrequencyTable ''abbcccc'') r \<longleftrightarrow>
      r = Inr (Node (CHR 0x00) 7
        (Some (Node (CHR 0x00) 3 (Some (Node CHR ''a'' 1 None None))
           (Some (Node CHR ''b'' 2 None None))))
        (Some (Node CHR ''c'' 4 None None)))) \<and>
   decode_loop ''0''
     (Some (Node (CHR 0x00) 7
        (Some (Node (CHR 0x00) 3 (Some (Node CHR ''a'' 1 None None))
           (Some (Node CHR ''b'' 2 None None))))
        (Some (Node CHR ''c'' 4 None None)))) []
     (Some (Node (CHR 0x00) 7
        (Some (Node (CHR 0x00) 3 (Some (Node CHR ''a'' 1 None None))
           (Some (Node CHR ''b'' 2 None None))))
        (Some (Node CHR ''c'' 4 None None)))) =
     Inr ([], Some (Node (CHR 0x00) 3 (Some (Node CHR ''a'' 1 None None))
           (Some (Node CHR ''b'' 2 None None)))) \<and>
   decode ''0''
     (Some (Node (CHR 0x00) 7
        (Some (Node (CHR 0x00) 3 (Some (Node CHR ''a'' 1 None None))
           (Some (Node CHR ''b'' 2 None None))))
        (Some (Node CHR ''c'' 4 None None)))) = Inr [] \<and>
   decode ''000''
     (Some (Node (CHR 0x00) 7
        (Some (Node (CHR 0x00) 3 (Some (Node CHR ''a'' 1 None None))
           (Some (Node CHR ''b'' 2 None None))))
        (Some (Node CHR ''c'' 4 None None)))) = Inr ''a''"
proof (intro conjI)
  show "\<forall>r. buildHuffmanTree (buildFrequencyTable ''abbcccc'') r \<longleftrightarrow>
      r = Inr (Node (CHR 0x00) 7
        (Some (Node (CHR 0x00) 3 (Some (Node CHR ''a'' 1 None None))
           (Some (Node CHR ''b'' 2 None None))))
        (Some (Node CHR ''c'' 4 None None)))"
    using build_abbcccc build_abbcccc_only by blast
qed (simp_all add: decode_def is_leaf_def)

text \<open>
  Every bitstring is a sequence of complete codes followed by a proper prefix of a code,
  and the decoder returns the symbols of the complete codes.
\<close>

lemma decode_loop_to_bit:
  "decode_loop (map to_bit bits) root out cur = decode_loop bits root out cur"
proof (induction bits arbitrary: out cur)
  case Nil
  show ?case by simp
next
  case (Cons b bits)
  have "(to_bit b = CHR ''0'') = (b = CHR ''0'')" by (simp add: to_bit_def)
  with Cons show ?case by (simp split: option.splits)
qed

lemma inner_paths_nonempty:
  assumes "strict t" "\<not> is_leaf t" "e \<in> set (leaves t [])"
  shows "snd (snd e) \<noteq> []"
  using assms by (cases rule: strict_leaf_cases) (auto simp: leaves_inner simp del: leaves.simps)

lemma cons_path_member:
  "e \<in> set xs \<Longrightarrow>
   (fst e, fst (snd e), b # snd (snd e)) \<in> set (map (\<lambda>(c, f, s). (c, f, b # s)) xs)"
  by (cases e) (auto simp: image_iff intro!: bexI [of _ e])

lemma first_code:
  "strict n \<Longrightarrow> \<not> is_leaf n \<Longrightarrow> set bits \<subseteq> {CHR ''0'', CHR ''1''} \<Longrightarrow>
   (\<exists>e\<in>set (leaves n []). \<exists>rest. bits = snd (snd e) @ rest) \<or>
   (\<exists>e\<in>set (leaves n []). strict_prefix bits (snd (snd e)))"
proof (induction arbitrary: bits rule: strict.induct)
  case (leaf c f bits)
  then show ?case by (simp add: is_leaf_def)
next
  case (inner l r c f bits)
  let ?n = "Node c f (Some l) (Some r)"
  have lv: "leaves ?n [] =
     map (\<lambda>(c, f, s). (c, f, CHR ''0'' # s)) (leaves l []) @
     map (\<lambda>(c, f, s). (c, f, CHR ''1'' # s)) (leaves r [])"
    using inner.hyps by (rule leaves_inner)
  show ?case
  proof (cases bits)
    case Nil
    from leaves_nonempty [OF inner.hyps(1)] obtain e where "e \<in> set (leaves l [])"
      by (cases "leaves l []") auto
    then have "(fst e, fst (snd e), CHR ''0'' # snd (snd e)) \<in> set (leaves ?n [])"
      unfolding lv using cons_path_member [of e "leaves l []" "CHR ''0''"] by simp
    then have "\<exists>e\<in>set (leaves ?n []). strict_prefix bits (snd (snd e))"
      using Nil by (intro bexI [of _ "(fst e, fst (snd e), CHR ''0'' # snd (snd e))"])
        (simp_all add: strict_prefix_def del: leaves.simps)
    then show ?thesis ..
  next
    case (Cons b bs)
    with inner.prems have b: "b = CHR ''0'' \<or> b = CHR ''1''"
      and bs: "set bs \<subseteq> {CHR ''0'', CHR ''1''}" by auto
    define k where "k = (if b = CHR ''0'' then l else r)"
    have k: "strict k" using inner.hyps by (simp add: k_def)
    have lift: "(fst e, fst (snd e), b # snd (snd e)) \<in> set (leaves ?n [])"
      if "e \<in> set (leaves k [])" for e
      using that b cons_path_member [of e "leaves l []" b] cons_path_member [of e "leaves r []" b]
      unfolding lv k_def by (cases "b = CHR ''0''") simp_all
    have IH: "(\<exists>e\<in>set (leaves k []). \<exists>rest. bs = snd (snd e) @ rest) \<or>
       (\<exists>e\<in>set (leaves k []). strict_prefix bs (snd (snd e)))" if "\<not> is_leaf k"
    proof (cases "b = CHR ''0''")
      case True
      with that have "\<not> is_leaf l" by (simp add: k_def)
      from inner.IH(1) [OF this bs] True show ?thesis by (simp add: k_def)
    next
      case False
      with that have "\<not> is_leaf r" by (simp add: k_def)
      from inner.IH(2) [OF this bs] False show ?thesis by (simp add: k_def)
    qed
    show ?thesis
    proof (cases "is_leaf k")
      case True
      with k obtain ck fk where "k = Node ck fk None None" by (auto elim: strict_leaf_cases)
      then have "(ck, fk, []) \<in> set (leaves k [])" by simp
      from lift [OF this] have "(ck, fk, [b]) \<in> set (leaves ?n [])" by simp
      then have "\<exists>e\<in>set (leaves ?n []). \<exists>rest. bits = snd (snd e) @ rest"
        using Cons by (intro bexI [of _ "(ck, fk, [b])"]) auto
      then show ?thesis ..
    next
      case False
      from IH [OF this] show ?thesis
      proof
        assume "\<exists>e\<in>set (leaves k []). \<exists>rest. bs = snd (snd e) @ rest"
        then obtain e rest where e: "e \<in> set (leaves k [])" "bs = snd (snd e) @ rest" by blast
        from lift [OF e(1)] e(2) Cons
        have "\<exists>e\<in>set (leaves ?n []). \<exists>rest. bits = snd (snd e) @ rest"
          by (intro bexI [of _ "(fst e, fst (snd e), b # snd (snd e))"]) auto
        then show ?thesis ..
      next
        assume "\<exists>e\<in>set (leaves k []). strict_prefix bs (snd (snd e))"
        then obtain e where e: "e \<in> set (leaves k [])" "strict_prefix bs (snd (snd e))" by blast
        from lift [OF e(1)] e(2) Cons
        have "\<exists>e\<in>set (leaves ?n []). strict_prefix bits (snd (snd e))"
          by (intro bexI [of _ "(fst e, fst (snd e), b # snd (snd e))"]) auto
        then show ?thesis ..
      qed
    qed
  qed
qed

lemma split_into_codes:
  assumes "strict t" "\<not> is_leaf t"
  shows "set bits \<subseteq> {CHR ''0'', CHR ''1''} \<Longrightarrow>
   \<exists>es p. bits = concat (map (\<lambda>e. snd (snd e)) es) @ p \<and> set es \<subseteq> set (leaves t []) \<and>
     (\<exists>e\<in>set (leaves t []). strict_prefix p (snd (snd e)))"
proof (induction "length bits" arbitrary: bits rule: less_induct)
  case less
  from first_code [OF assms less.prems] show ?case
  proof
    assume "\<exists>e\<in>set (leaves t []). \<exists>rest. bits = snd (snd e) @ rest"
    then obtain e rest where e: "e \<in> set (leaves t [])" "bits = snd (snd e) @ rest" by blast
    from inner_paths_nonempty [OF assms e(1)] e(2) have "length rest < length bits" by simp
    moreover from less.prems e(2) have "set rest \<subseteq> {CHR ''0'', CHR ''1''}" by auto
    ultimately obtain es p where
      "rest = concat (map (\<lambda>e. snd (snd e)) es) @ p" "set es \<subseteq> set (leaves t [])"
      "\<exists>e\<in>set (leaves t []). strict_prefix p (snd (snd e))"
      using less.hyps by blast
    with e have "bits = concat (map (\<lambda>e. snd (snd e)) (e # es)) @ p \<and>
        set (e # es) \<subseteq> set (leaves t []) \<and>
        (\<exists>e\<in>set (leaves t []). strict_prefix p (snd (snd e)))" by simp
    then show ?thesis by blast
  next
    assume "\<exists>e\<in>set (leaves t []). strict_prefix bits (snd (snd e))"
    then have "bits = concat (map (\<lambda>e. snd (snd e)) []) @ bits \<and>
        set [] \<subseteq> set (leaves t []) \<and>
        (\<exists>e\<in>set (leaves t []). strict_prefix bits (snd (snd e)))" by simp
    then show ?thesis by blast
  qed
qed

lemma to_bit_range: "set (map to_bit bits) \<subseteq> {CHR ''0'', CHR ''1''}"
  by (auto simp: to_bit_def)

lemma decode_loop_codes:
  assumes "strict t" "\<not> is_leaf t"
  shows "set es \<subseteq> set (leaves t []) \<Longrightarrow>
   decode_loop (concat (map (\<lambda>e. snd (snd e)) es) @ rest) (Some t) out (Some t) =
     decode_loop rest (Some t) (out @ map (\<lambda>e. from_sentinel (fst e)) es) (Some t)"
proof (induction es arbitrary: out)
  case Nil
  show ?case by simp
next
  case (Cons e es)
  obtain c f s where e: "e = (c, f, s)" by (cases e)
  with Cons.prems have "(c, f, s) \<in> set (leaves t [])" by simp
  from decode_code [OF assms this]
  have "decode_loop (s @ concat (map (\<lambda>e. snd (snd e)) es) @ rest) (Some t) out (Some t) =
      decode_loop (concat (map (\<lambda>e. snd (snd e)) es) @ rest) (Some t)
        (out @ [from_sentinel c]) (Some t)" .
  with Cons e show ?case by simp
qed

lemma decode_codes_then_prefix:
  assumes "strict t" "\<not> is_leaf t"
    and "map to_bit bits = concat (map (\<lambda>e. snd (snd e)) es) @ p"
    and "set es \<subseteq> set (leaves t [])"
    and "\<exists>e\<in>set (leaves t []). strict_prefix p (snd (snd e))"
  shows "decode bits (Some t) = Inr (map (\<lambda>e. from_sentinel (fst e)) es)"
proof -
  from assms(5) obtain c f s where "(c, f, s) \<in> set (leaves t [])" "strict_prefix p s"
    by force
  from decode_partial [OF assms(1) this] obtain n where
    "decode_loop p (Some t) (map (\<lambda>e. from_sentinel (fst e)) es) (Some t) =
       Inr (map (\<lambda>e. from_sentinel (fst e)) es, Some n)" by blast
  with decode_loop_codes [OF assms(1,2,4), of p "[]"]
  have "decode_loop (map to_bit bits) (Some t) [] (Some t) =
      Inr (map (\<lambda>e. from_sentinel (fst e)) es, Some n)"
    by (simp add: assms(3))
  then show ?thesis by (simp add: decode_def decode_loop_to_bit)
qed

text \<open>
  C4, amended. Under every tree built from a table with at least two entries the
  decoder signals no error on any bitstring, whether or not the traversal ends at the
  root. Every bitstring, each character other than \<open>0\<close> read as \<open>1\<close>, is a sequence
  of complete codes (paths to leaves) followed by a proper prefix of a code, which may
  be empty; however it is split in this way, the decoder returns exactly the symbols
  of the complete codes, the sentinel as a space, and drops the trailing incomplete
  code. The codes of the code map are such paths. In particular the encoding of an
  input followed by a proper prefix of one of the codes decodes to what the encoding
  alone decodes to.
\<close>

theorem decode_accepts_every_bitstring:
  assumes "buildHuffmanTree frequency (Inr t)" and "2 \<le> length frequency"
  shows "(\<exists>out. decode bits (Some t) = Inr out) \<and>
         (\<exists>es p. map to_bit bits = concat (map (\<lambda>e. snd (snd e)) es) @ p \<and>
            set es \<subseteq> set (leaves t []) \<and>
            (\<exists>e\<in>set (leaves t []). strict_prefix p (snd (snd e)))) \<and>
         (\<forall>es p. map to_bit bits = concat (map (\<lambda>e. snd (snd e)) es) @ p \<longrightarrow>
            set es \<subseteq> set (leaves t []) \<longrightarrow>
            (\<exists>e\<in>set (leaves t []). strict_prefix p (snd (snd e))) \<longrightarrow>
            decode bits (Some t) = Inr (map (\<lambda>e. from_sentinel (fst e)) es)) \<and>
         (\<forall>k v. map_of (generateHuffmanCodes (Some t) [] []) k = Some v \<longrightarrow>
            (\<exists>f. (k, f, v) \<in> set (leaves t []))) \<and>
         (frequency = buildFrequencyTable input \<longrightarrow>
            (\<forall>k v p. map_of (generateHuffmanCodes (Some t) [] []) k = Some v \<longrightarrow>
               strict_prefix p v \<longrightarrow>
               (\<exists>enc. encode input (generateHuffmanCodes (Some t) [] []) = Inr enc \<and>
                  decode enc (Some t) = Inr (map from_sentinel input) \<and>
                  decode (enc @ p) (Some t) = Inr (map from_sentinel input))))"
proof -
  have strict: "strict t" using assms(1) by (rule built_tree_shape)
  have inner: "\<not> is_leaf t" using assms by (rule built_tree_inner)
  have 1: "\<exists>out. decode bits (Some t) = Inr out"
    using strict inner by (rule decode_total)
  have 2: "\<exists>es p. map to_bit bits = concat (map (\<lambda>e. snd (snd e)) es) @ p \<and>
      set es \<subseteq> set (leaves t []) \<and>
      (\<exists>e\<in>set (leaves t []). strict_prefix p (snd (snd e)))"
    using strict inner to_bit_range by (rule split_into_codes)
  have 3: "\<forall>es p. map to_bit bits = concat (map (\<lambda>e. snd (snd e)) es) @ p \<longrightarrow>
      set es \<subseteq> set (leaves t []) \<longrightarrow>
      (\<exists>e\<in>set (leaves t []). strict_prefix p (snd (snd e))) \<longrightarrow>
      decode bits (Some t) = Inr (map (\<lambda>e. from_sentinel (fst e)) es)"
    using decode_codes_then_prefix [OF strict inner] by blast
  have 4: "\<forall>k v. map_of (generateHuffmanCodes (Some t) [] []) k = Some v \<longrightarrow>
      (\<exists>f. (k, f, v) \<in> set (leaves t []))"
    using code_map_sound [OF strict] by blast
  have 5: "frequency = buildFrequencyTable input \<longrightarrow>
      (\<forall>k v p. map_of (generateHuffmanCodes (Some t) [] []) k = Some v \<longrightarrow>
         strict_prefix p v \<longrightarrow>
         (\<exists>enc. encode input (generateHuffmanCodes (Some t) [] []) = Inr enc \<and>
            decode enc (Some t) = Inr (map from_sentinel input) \<and>
            decode (enc @ p) (Some t) = Inr (map from_sentinel input)))"
  proof (intro impI allI)
    fix k v p
    assume eq: "frequency = buildFrequencyTable input"
      and kv: "map_of (generateHuffmanCodes (Some t) [] []) k = Some v" "strict_prefix p v"
    from assms eq have built: "buildHuffmanTree (buildFrequencyTable input) (Inr t)"
      and two: "2 \<le> length (buildFrequencyTable input)" by simp_all
    from round_trip_general [OF built two, of "[]"] obtain enc where
      enc: "encode input (generateHuffmanCodes (Some t) [] []) = Inr enc"
        "decode enc (Some t) = Inr (map from_sentinel input)" by auto
    from round_trip_general [OF built two, of p] kv enc(1)
    have "decode (enc @ p) (Some t) = Inr (map from_sentinel input)" by auto
    with enc show "\<exists>enc. encode input (generateHuffmanCodes (Some t) [] []) = Inr enc \<and>
        decode enc (Some t) = Inr (map from_sentinel input) \<and>
        decode (enc @ p) (Some t) = Inr (map from_sentinel input)" by blast
  qed
  from 1 2 3 4 5 show ?thesis by (intro conjI)
qed

theorem decode_accepts_every_bitstring_witness:
  "buildHuffmanTree (buildFrequencyTable ''abbcccc'')
     (Inr (Node (CHR 0x00) 7
          (Some (Node (CHR 0x00) 3 (Some (Node CHR ''a'' 1 None None))
             (Some (Node CHR ''b'' 2 None None))))
          (Some (Node CHR ''c'' 4 None None)))) \<and>
   2 \<le> length (buildFrequencyTable ''abbcccc'') \<and>
   map to_bit ''000'' = concat (map (\<lambda>e. snd (snd e)) [(CHR ''a'', 1 :: int, ''00'')]) @ ''0'' \<and>
   set [(CHR ''a'', 1, ''00'')] \<subseteq> set (leaves
       (Node (CHR 0x00) 7
          (Some (Node (CHR 0x00) 3 (Some (Node CHR ''a'' 1 None None))
             (Some (Node CHR ''b'' 2 None None))))
          (Some (Node CHR ''c'' 4 None None))) []) \<and>
   strict_prefix ''0'' ''00'' \<and>
   decode ''000''
       (Some (Node (CHR 0x00) 7
          (Some (Node (CHR 0x00) 3 (Some (Node CHR ''a'' 1 None None))
             (Some (Node CHR ''b'' 2 None None))))
          (Some (Node CHR ''c'' 4 None None)))) = Inr ''a'' \<and>
   encode ''abbcccc''
     (generateHuffmanCodes
       (Some (Node (CHR 0x00) 7
          (Some (Node (CHR 0x00) 3 (Some (Node CHR ''a'' 1 None None))
             (Some (Node CHR ''b'' 2 None None))))
          (Some (Node CHR ''c'' 4 None None)))) [] []) = Inr ''0001011111'' \<and>
   decode (''0001011111'' @ ''0'')
       (Some (Node (CHR 0x00) 7
          (Some (Node (CHR 0x00) 3 (Some (Node CHR ''a'' 1 None None))
             (Some (Node CHR ''b'' 2 None None))))
          (Some (Node CHR ''c'' 4 None None)))) = Inr ''abbcccc''"
proof -
  let ?t = "(Node (CHR 0x00) 7
          (Some (Node (CHR 0x00) 3 (Some (Node CHR ''a'' 1 None None))
             (Some (Node CHR ''b'' 2 None None))))
          (Some (Node CHR ''c'' 4 None None)))"
  have enc: "encode ''abbcccc'' (generateHuffmanCodes (Some ?t) [] []) = Inr ''0001011111''"
    by (simp add: codes_abbcccc encode_def at_key_def)
  have two: "2 \<le> length (buildFrequencyTable ''abbcccc'')" by (simp add: table_abbcccc)
  have kv: "map_of (generateHuffmanCodes (Some ?t) [] []) CHR ''a'' = Some ''00''"
    by (simp add: codes_abbcccc)
  have p: "strict_prefix ''0'' ''00''" by (simp add: strict_prefix_def)
  have split: "map to_bit ''000'' =
      concat (map (\<lambda>e. snd (snd e)) [(CHR ''a'', 1 :: int, ''00'')]) @ ''0''"
    by (simp add: to_bit_def)
  have mem: "set [(CHR ''a'', 1, ''00'')] \<subseteq> set (leaves ?t [])" by simp
  then have pre: "\<exists>e\<in>set (leaves ?t []). strict_prefix ''0'' (snd (snd e))"
    using p by simp
  note inst = decode_accepts_every_bitstring [OF build_abbcccc two, of "''000''" "''abbcccc''"]
  from inst have "\<forall>es p. map to_bit ''000'' = concat (map (\<lambda>e. snd (snd e)) es) @ p \<longrightarrow>
      set es \<subseteq> set (leaves ?t []) \<longrightarrow>
      (\<exists>e\<in>set (leaves ?t []). strict_prefix p (snd (snd e))) \<longrightarrow>
      decode ''000'' (Some ?t) = Inr (map (\<lambda>e. from_sentinel (fst e)) es)"
    by blast
  from this [rule_format, OF split mem pre]
  have short: "decode ''000'' (Some ?t) = Inr ''a''" by (simp add: from_sentinel_def)
  from inst
  have "\<forall>k v p. map_of (generateHuffmanCodes (Some ?t) [] []) k = Some v \<longrightarrow>
          strict_prefix p v \<longrightarrow>
          (\<exists>e. encode ''abbcccc'' (generateHuffmanCodes (Some ?t) [] []) = Inr e \<and>
             decode e (Some ?t) = Inr (map from_sentinel ''abbcccc'') \<and>
             decode (e @ p) (Some ?t) = Inr (map from_sentinel ''abbcccc''))"
    by blast
  from this [rule_format, OF kv p] obtain e where
    "encode ''abbcccc'' (generateHuffmanCodes (Some ?t) [] []) = Inr e"
    "decode (e @ ''0'') (Some ?t) = Inr (map from_sentinel ''abbcccc'')" by blast
  with enc have "decode (''0001011111'' @ ''0'') (Some ?t) = Inr (map from_sentinel ''abbcccc'')"
    by simp
  with enc two p split mem short build_abbcccc show ?thesis
    by (simp add: from_sentinel_def)
qed

section \<open>The sizes and the ratio\<close>

text \<open>
  C10. The original size is eight times the length of the input and the compressed
  size is the length of the encoded string. The ratio is computed by an unguarded
  division: it divides by zero exactly when the encoded string is empty, which is the
  case in the one round of the input \<open>aaaa\<close>.
\<close>

theorem ratio_divides_by_zero:
  "originalSize input = length input * 8 \<and>
   compressedSize enc = length enc \<and>
   (compressionRatio input enc = Inl Division_by_zero \<longleftrightarrow> enc = []) \<and>
   (\<forall>r. main_round ''aaaa'' r \<longleftrightarrow> r = Inr ([], [])) \<and>
   originalSize ''aaaa'' = 32 \<and> compressedSize [] = 0 \<and>
   compressionRatio ''aaaa'' [] = Inl Division_by_zero"
  using main_round_single_symbol [of "''aaaa''" "CHR ''a''"]
  by (simp add: originalSize_def compressedSize_def compressionRatio_def divide_double_def
      to_sentinel_def)

section \<open>Counts and depths\<close>

lemma weighted_strict: "weighted t \<Longrightarrow> strict t"
  by (induction rule: weighted.induct) (auto intro: strict.intros)

lemma weighted_positive: "weighted t \<Longrightarrow> 0 < freq t"
  by (induction rule: weighted.induct) auto

lemma merged_exact:
  assumes "0 < freq l" "0 < freq r" "freq l + freq r < 2147483648"
  shows "merged l r = Node (CHR 0x00) (freq l + freq r) (Some l) (Some r)"
proof -
  from assms have "int32 (freq l + freq r) = freq l + freq r" by (intro int32_id) simp_all
  then show ?thesis by (simp add: merged_def)
qed

lemma weighted_merged:
  assumes "weighted l" "weighted r" "freq l + freq r < 2147483648"
  shows "weighted (merged l r)" and "freq (merged l r) = freq l + freq r"
proof -
  from assms have eq: "merged l r = Node (CHR 0x00) (freq l + freq r) (Some l) (Some r)"
    by (intro merged_exact) (simp_all add: weighted_positive)
  from assms(1,2) show "weighted (merged l r)" unfolding eq by (rule weighted.inner)
  show "freq (merged l r) = freq l + freq r" unfolding eq by simp
qed

lemma sibling_pairs_merged:
  "sibling_pairs (merged l r) = (freq l, freq r) # sibling_pairs l @ sibling_pairs r"
  by (simp add: merged_def)

lemma forest_pairs_remove1:
  "x \<in> set q \<Longrightarrow> forest_pairs q = mset (sibling_pairs x) + forest_pairs (remove1 x q)"
  unfolding forest_pairs_def by (rule sum_list_map_remove1)

lemma pairs_step:
  assumes "is_top q l" "is_top (pop l q) r"
  shows "forest_pairs (push (merged l r) (pop r (pop l q))) =
           add_mset (freq l, freq r) (forest_pairs q)"
proof -
  from tops_member [OF assms]
  have l: "l \<in> set q" and r: "r \<in> set (remove1 l q)" by simp_all
  have "forest_pairs (push (merged l r) (pop r (pop l q))) =
      add_mset (freq l, freq r)
        (mset (sibling_pairs l) + (mset (sibling_pairs r) + forest_pairs (remove1 r (remove1 l q))))"
    by (simp add: forest_pairs_def push_def pop_def sibling_pairs_merged)
  also have "\<dots> = add_mset (freq l, freq r) (forest_pairs q)"
    using forest_pairs_remove1 [OF l] forest_pairs_remove1 [OF r] by simp
  finally show ?thesis .
qed

lemma merge_invariant_step:
  assumes inv: "merge_invariant q" and l: "is_top q l" and r: "is_top (pop l q) r"
  shows "merge_invariant (push (merged l r) (pop r (pop l q)))"
proof -
  let ?q' = "push (merged l r) (pop r (pop l q))"
  from tops_member [OF l r]
  have lq: "l \<in> set q" and rq: "r \<in> set q" and rq': "r \<in> set (remove1 l q)" by simp_all
  from inv have w: "\<forall>t\<in>set q. weighted t"
    and below: "\<forall>t\<in>set q. \<forall>P\<in>#forest_pairs q. fst P \<le> freq t \<and> snd P \<le> freq t"
    by (simp_all add: merge_invariant_def)
  from inv have bound: "sum_list (map freq q) < 2147483648"
    by (simp add: merge_invariant_def)
  from inv obtain h where h: "mset h = forest_pairs q" "sorted_wrt before h"
    by (auto simp: merge_invariant_def)
  have pos: "0 < freq l" "0 < freq r" using w lq rq by (simp_all add: weighted_positive)
  have rest: "set (pop r (pop l q)) \<subseteq> set (remove1 l q)" "set (remove1 l q) \<subseteq> set q"
    unfolding pop_def by (rule set_remove1_subset)+
  have split: "sum_list (map freq q) =
      freq l + (freq r + sum_list (map freq (remove1 r (remove1 l q))))"
    using sum_list_map_remove1 [OF lq, of freq] sum_list_map_remove1 [OF rq', of freq] by simp
  have "\<forall>x\<in>set (map freq (remove1 r (remove1 l q))). 0 \<le> x"
    using w rest by (auto simp: pop_def intro!: less_imp_le weighted_positive)
  then have "0 \<le> sum_list (map freq (remove1 r (remove1 l q)))"
    by (intro sum_list_nonneg) auto
  with split bound have small: "freq l + freq r < 2147483648" by simp
  have fm: "freq (merged l r) = freq l + freq r"
    using w lq rq small by (intro weighted_merged) simp_all
  have 0: "sum_list (map freq ?q') < 2147483648"
    using split bound by (simp add: push_def pop_def fm)
  have pairs: "forest_pairs ?q' = add_mset (freq l, freq r) (forest_pairs q)"
    using l r by (rule pairs_step)
  have "weighted (merged l r)" using w lq rq small by (intro weighted_merged) simp_all
  then have 1: "\<forall>t\<in>set ?q'. weighted t"
    using w rest by (auto simp: push_def)
  have 2: "\<forall>t\<in>set ?q'. \<forall>P\<in>#forest_pairs ?q'. fst P \<le> freq t \<and> snd P \<le> freq t"
  proof (intro ballI)
    fix t P assume t: "t \<in> set ?q'" and P: "P \<in># forest_pairs ?q'"
    from t consider "t = merged l r" | "t \<in> set (remove1 l q)" "t \<in> set (pop r (pop l q))"
      using rest by (auto simp: push_def)
    then show "fst P \<le> freq t \<and> snd P \<le> freq t"
    proof cases
      case 1
      from P pairs consider "P = (freq l, freq r)" | "P \<in># forest_pairs q" by auto
      then show ?thesis
      proof cases
        case 1
        with \<open>t = merged l r\<close> pos show ?thesis by (simp add: fm)
      next
        case 2
        with below lq have "fst P \<le> freq l" "snd P \<le> freq l" by auto
        with \<open>t = merged l r\<close> pos show ?thesis by (simp add: fm)
      qed
    next
      case 2
      then have tq: "t \<in> set q" using rest by auto
      from P pairs consider "P = (freq l, freq r)" | "P \<in># forest_pairs q" by auto
      then show ?thesis
      proof cases
        case 1
        from l tq have "freq l \<le> freq t" by (simp add: is_top_iff)
        moreover from r 2(1) have "freq r \<le> freq t" by (simp add: is_top_iff pop_def)
        ultimately show ?thesis using 1 by simp
      next
        case 2
        with below tq show ?thesis by auto
      qed
    qed
  qed
  have "\<forall>P\<in>set h. before P (freq l, freq r)"
  proof
    fix P assume "P \<in> set h"
    then have "P \<in># forest_pairs q" using h(1) by (metis set_mset_mset)
    with below lq rq show "before P (freq l, freq r)" by (auto simp: before_def)
  qed
  with h have "mset (h @ [(freq l, freq r)]) = forest_pairs ?q'"
    "sorted_wrt before (h @ [(freq l, freq r)])"
    by (simp_all add: pairs sorted_wrt_append)
  then have 3: "\<exists>h. mset h = forest_pairs ?q' \<and> sorted_wrt before h" by blast
  from 0 1 2 3 show ?thesis unfolding merge_invariant_def by blast
qed

lemma forest_pairs_leaves: "\<forall>t\<in>set q. sibling_pairs t = [] \<Longrightarrow> forest_pairs q = {#}"
  by (induction q) (simp_all add: forest_pairs_def)

lemma push_all_sum:
  "sum_list (map freq (push_all fs q)) = sum_list (map freq q) + sum_list (map snd fs)"
  by (induction fs arbitrary: q) (simp_all add: push_def new_Node_def)

lemma merge_invariant_push_all:
  assumes "\<forall>x\<in>set fs. 0 < snd x" "sum_list (map snd fs) < 2147483648"
  shows "merge_invariant (push_all fs [])"
proof -
  have leaf: "\<forall>t\<in>set (push_all fs []). \<exists>c f. t = Node c f None None \<and> 0 < f"
    using assms by (auto simp: push_all_set new_Node_def)
  then have "\<forall>t\<in>set (push_all fs []). weighted t" by (auto intro: weighted.leaf)
  moreover have "\<forall>t\<in>set (push_all fs []). sibling_pairs t = []" using leaf by auto
  then have "forest_pairs (push_all fs []) = {#}"
    by (rule forest_pairs_leaves)
  ultimately show ?thesis using assms(2) by (simp add: merge_invariant_def push_all_sum)
qed

lemma built_tree_weighted:
  assumes "buildHuffmanTree fs (Inr t)" "\<forall>x\<in>set fs. 0 < snd x"
    and "sum_list (map snd fs) < 2147483648"
  shows "weighted t" and "\<exists>h. mset h = mset (sibling_pairs t) \<and> sorted_wrt before h"
proof -
  from assms(1) have loop: "merge_loop (push_all fs []) [t]" by (auto simp: build_cases)
  have "merge_invariant [t]"
    using loop merge_invariant_push_all [OF assms(2,3)]
    by (rule merge_loop_invariant [where I = merge_invariant]) (rule merge_invariant_step)
  then show "weighted t" and "\<exists>h. mset h = mset (sibling_pairs t) \<and> sorted_wrt before h"
    by (simp_all add: merge_invariant_def forest_pairs_def)
qed

lemma level_0: "level t 0 = [freq t]"
  by (cases t) simp

lemma level_Suc_inner:
  "level (Node c f (Some l) (Some r)) (Suc d) = level l d @ level r d"
  by simp

lemma level_pairs_0_inner:
  "level_pairs (Node c f (Some l) (Some r)) 0 = [(freq l, freq r)]"
  by simp

lemma level_pairs_Suc_inner:
  "level_pairs (Node c f (Some l) (Some r)) (Suc d) = level_pairs l d @ level_pairs r d"
  by simp

lemma sibling_pairs_inner:
  "sibling_pairs (Node c f (Some l) (Some r)) =
     (freq l, freq r) # sibling_pairs l @ sibling_pairs r"
  by simp

lemma subset_add_mset: "A \<subseteq># B \<Longrightarrow> A \<subseteq># add_mset x B"
  by (meson multi_psub_of_add_self subset_mset.le_less subset_mset.le_less_trans)

lemma level_pairs_subset:
  "weighted t \<Longrightarrow> mset (level_pairs t d) \<subseteq># mset (sibling_pairs t)"
proof (induction arbitrary: d rule: weighted.induct)
  case (leaf f c d)
  show ?case by (cases d) simp_all
next
  case (inner l r c d)
  show ?case
  proof (cases d)
    case 0
    then show ?thesis by simp
  next
    case (Suc k)
    have "mset (level_pairs l k) + mset (level_pairs r k) \<subseteq>#
        mset (sibling_pairs l) + mset (sibling_pairs r)"
      using inner.IH by (intro subset_mset.add_mono)
    then have "mset (level_pairs l k) + mset (level_pairs r k) \<subseteq>#
        add_mset (freq l, freq r) (mset (sibling_pairs l) + mset (sibling_pairs r))"
      by (rule subset_add_mset)
    then show ?thesis by (simp add: Suc)
  qed
qed

lemma two_levels_subset:
  "weighted t \<Longrightarrow> d \<noteq> d' \<Longrightarrow>
   mset (level_pairs t d) + mset (level_pairs t d') \<subseteq># mset (sibling_pairs t)"
proof (induction arbitrary: d d' rule: weighted.induct)
  case (leaf f c d d')
  show ?case by (cases d; cases d') simp_all
next
  case (inner l r c d d')
  have sub: "mset (level_pairs l k) + mset (level_pairs r k) \<subseteq>#
        mset (sibling_pairs l) + mset (sibling_pairs r)" for k
    using inner.hyps by (intro subset_mset.add_mono level_pairs_subset)
  show ?case
  proof (cases d)
    case 0
    with inner.prems obtain k where k: "d' = Suc k" by (cases d') auto
    from sub [of k] show ?thesis by (simp add: 0 k)
  next
    case (Suc k)
    show ?thesis
    proof (cases d')
      case 0
      from sub [of k] show ?thesis by (simp add: 0 Suc)
    next
      case (Suc k')
      with \<open>d = Suc k\<close> inner.prems have "k \<noteq> k'" by simp
      from inner.IH(1) [OF this] inner.IH(2) [OF this]
      have "(mset (level_pairs l k) + mset (level_pairs l k')) +
            (mset (level_pairs r k) + mset (level_pairs r k')) \<subseteq>#
            mset (sibling_pairs l) + mset (sibling_pairs r)"
        by (rule subset_mset.add_mono)
      then have "mset (level_pairs l k) + mset (level_pairs r k) +
            (mset (level_pairs l k') + mset (level_pairs r k')) \<subseteq>#
            add_mset (freq l, freq r) (mset (sibling_pairs l) + mset (sibling_pairs r))"
        by (intro subset_add_mset) (simp add: ac_simps)
      then show ?thesis by (simp add: Suc \<open>d = Suc k\<close>)
    qed
  qed
qed

lemma sorted_wrt_two:
  "sorted_wrt R h \<Longrightarrow> x \<in> set h \<Longrightarrow> y \<in># mset h - {#x#} \<Longrightarrow> R x y \<or> R y x"
proof (induction h)
  case Nil
  then show ?case by simp
next
  case (Cons z h)
  show ?case
  proof (cases "x = z")
    case True
    with Cons.prems show ?thesis by simp
  next
    case False
    with Cons.prems have x: "x \<in> set h" by simp
    then have "mset (z # h) - {#x#} = add_mset z (mset h - {#x#})" by simp
    with Cons.prems(3) consider "y = z" | "y \<in># mset h - {#x#}" by auto
    then show ?thesis
    proof cases
      case 1
      with Cons.prems(1) x show ?thesis by simp
    next
      case 2
      with Cons.IH x Cons.prems(1) show ?thesis by simp
    qed
  qed
qed

lemma pairs_of_two_levels:
  assumes "weighted t" "sorted_wrt before h" "mset h = mset (sibling_pairs t)"
    and "d \<noteq> d'" "P \<in> set (level_pairs t d)" "P' \<in> set (level_pairs t d')"
  shows "before P P' \<or> before P' P"
proof -
  from assms(5,6) have "{#P#} + {#P'#} \<subseteq># mset (level_pairs t d) + mset (level_pairs t d')"
    by (intro subset_mset.add_mono) simp_all
  also have "\<dots> \<subseteq># mset h"
    using two_levels_subset [OF assms(1,4)] by (simp add: assms(3))
  finally have "add_mset P {#P'#} \<subseteq># mset h" by (simp add: add_mset_commute)
  then have "P \<in># mset h \<and> {#P'#} \<subseteq># mset h - {#P#}"
    by (simp only: insert_subset_eq_iff)
  then have "P \<in> set h" "P' \<in># mset h - {#P#}" by simp_all
  with assms(2) show ?thesis by (rule sorted_wrt_two)
qed

lemma sibling_pairs_positive:
  "weighted t \<Longrightarrow> P \<in> set (sibling_pairs t) \<Longrightarrow> 0 < fst P \<and> 0 < snd P"
  by (induction rule: weighted.induct) (auto simp: weighted_positive)

lemma level_pairs_positive:
  assumes "weighted t" "P \<in> set (level_pairs t d)"
  shows "0 < fst P \<and> 0 < snd P"
proof -
  from level_pairs_subset [OF assms(1), of d] have "set (level_pairs t d) \<subseteq> set (sibling_pairs t)"
    by (metis set_mset_mono set_mset_mset)
  with assms show ?thesis by (auto dest: sibling_pairs_positive)
qed

text \<open>Every node below the root is one of a pair whose parent lies one level up.\<close>

lemma parent_pair:
  "weighted t \<Longrightarrow> x \<in> set (level t (Suc d)) \<Longrightarrow>
   \<exists>P\<in>set (level_pairs t d). (x = fst P \<or> x = snd P) \<and> fst P + snd P \<in> set (level t d)"
proof (induction arbitrary: d rule: weighted.induct)
  case (leaf f c d)
  then show ?case by simp
next
  case (inner l r c d)
  show ?case
  proof (cases d)
    case 0
    with inner.prems show ?thesis by (auto simp: level_0)
  next
    case (Suc k)
    with inner.prems consider "x \<in> set (level l (Suc k))" | "x \<in> set (level r (Suc k))"
      by auto
    then show ?thesis
    proof cases
      case 1
      from inner.IH(1) [OF this] show ?thesis by (auto simp: Suc)
    next
      case 2
      from inner.IH(2) [OF this] show ?thesis by (auto simp: Suc)
    qed
  qed
qed

lemma parent_above:
  assumes "weighted t" "x \<in> set (level t (Suc d))"
  shows "\<exists>z\<in>set (level t d). x \<le> z"
proof -
  from parent_pair [OF assms] obtain P where
    P: "P \<in> set (level_pairs t d)" "x = fst P \<or> x = snd P" "fst P + snd P \<in> set (level t d)"
    by blast
  from level_pairs_positive [OF assms(1) P(1)] P(2) have "x \<le> fst P + snd P" by auto
  with P(3) show ?thesis by blast
qed

lemma adjacent_levels:
  assumes "weighted t" "sorted_wrt before h" "mset h = mset (sibling_pairs t)"
  shows "x \<in> set (level t (Suc d)) \<Longrightarrow> y \<in> set (level t d) \<Longrightarrow> x \<le> y"
proof (induction d arbitrary: x y)
  case 0
  from parent_pair [OF assms(1) 0(1)] obtain P where
    P: "P \<in> set (level_pairs t 0)" "x = fst P \<or> x = snd P" "fst P + snd P \<in> set (level t 0)"
    by blast
  from P(3) 0(2) have "y = fst P + snd P" by (simp add: level_0)
  with level_pairs_positive [OF assms(1) P(1)] P(2) show ?case by auto
next
  case (Suc d)
  from parent_pair [OF assms(1) Suc.prems(1)] obtain P where
    P: "P \<in> set (level_pairs t (Suc d))" "x = fst P \<or> x = snd P"
      "fst P + snd P \<in> set (level t (Suc d))"
    by blast
  from parent_pair [OF assms(1) Suc.prems(2)] obtain P' where
    P': "P' \<in> set (level_pairs t d)" "y = fst P' \<or> y = snd P'"
      "fst P' + snd P' \<in> set (level t d)"
    by blast
  from Suc.IH [OF P(3) P'(3)] have sums: "fst P + snd P \<le> fst P' + snd P'" .
  have "before P P' \<or> before P' P"
    using assms _ P(1) P'(1) by (rule pairs_of_two_levels) simp
  then show ?case
  proof
    assume "before P P'"
    with P(2) P'(2) show ?thesis by (auto simp: before_def)
  next
    assume "before P' P"
    then have "fst P' \<le> fst P" "fst P' \<le> snd P" "snd P' \<le> fst P" "snd P' \<le> snd P"
      by (auto simp: before_def)
    with sums P(2) P'(2) show ?thesis by auto
  qed
qed

lemma deeper_is_lighter:
  assumes "weighted t" "sorted_wrt before h" "mset h = mset (sibling_pairs t)"
  shows "d' < d \<Longrightarrow> x \<in> set (level t d) \<Longrightarrow> y \<in> set (level t d') \<Longrightarrow> x \<le> y"
proof (induction d arbitrary: x)
  case 0
  then show ?case by simp
next
  case (Suc d)
  show ?case
  proof (cases "d' = d")
    case True
    with Suc.prems adjacent_levels [OF assms] show ?thesis by blast
  next
    case False
    with Suc.prems(1) have "d' < d" by simp
    from parent_above [OF assms(1) Suc.prems(2)] obtain z where
      z: "z \<in> set (level t d)" "x \<le> z" by blast
    from Suc.IH [OF \<open>d' < d\<close> z(1) Suc.prems(3)] z(2) show ?thesis by simp
  qed
qed

lemma leaf_at_level:
  "strict t \<Longrightarrow> (c, f, s) \<in> set (leaves t []) \<Longrightarrow> f \<in> set (level t (length s))"
proof (induction arbitrary: s rule: strict.induct)
  case (leaf c' f' s)
  then show ?case by simp
next
  case (inner l r c' f' s)
  from inner.prems inner.hyps
  consider s' where "s = CHR ''0'' # s'" "(c, f, s') \<in> set (leaves l [])"
    | s' where "s = CHR ''1'' # s'" "(c, f, s') \<in> set (leaves r [])"
    by (auto simp: leaves_inner simp del: leaves.simps)
  then show ?case
  proof cases
    case 1
    with inner.IH(1) [of s'] show ?thesis by simp
  next
    case 2
    with inner.IH(2) [of s'] show ?thesis by simp
  qed
qed

lemma built_leaf_count:
  assumes "buildHuffmanTree fs (Inr t)" "distinct (map fst fs)"
    and "map_of fs a = Some fa" "(a, f, s) \<in> set (leaves t [])"
  shows "f = fa"
proof -
  have "set (counts_of t) = set fs"
    using built_tree_shape(2) [OF assms(1)] by (rule mset_eq_setD)
  moreover from assms(4) have "(a, f) \<in> set (counts_of t)" by (force simp: counts_of_def)
  ultimately have "(a, f) \<in> set fs" by simp
  with assms(2) have "map_of fs a = Some f" by simp
  with assms(3) show ?thesis by simp
qed

text \<open>
  A table whose counts add up to more than \<open>2^31\<close>: the sum of \<open>p\<close> and \<open>q\<close> wraps
  to \<open>-2^31\<close>, so their parent is the least node of the queue from then on and sinks
  below the nodes of smaller count.
\<close>

lemma build_wrapping:
  "buildHuffmanTree
     [(CHR ''u'', 536870913), (CHR ''x'', 536870913), (CHR ''p'', 1073741824),
      (CHR ''q'', 1073741824), (CHR ''z'', 1073741825)]
     (Inr (Node (CHR 0x00) 3
        (Some (Node (CHR 0x00) (- 1073741823)
           (Some (Node (CHR 0x00) (- 2147483648)
              (Some (Node CHR ''p'' 1073741824 None None))
              (Some (Node CHR ''q'' 1073741824 None None))))
           (Some (Node CHR ''z'' 1073741825 None None))))
        (Some (Node (CHR 0x00) 1073741826
           (Some (Node CHR ''u'' 536870913 None None))
           (Some (Node CHR ''x'' 536870913 None None))))))"
proof -
  let ?u = "Node CHR ''u'' 536870913 None None" and ?x = "Node CHR ''x'' 536870913 None None"
    and ?p = "Node CHR ''p'' 1073741824 None None" and ?q = "Node CHR ''q'' 1073741824 None None"
    and ?z = "Node CHR ''z'' 1073741825 None None"
  let ?m1 = "Node (CHR 0x00) 1073741826 (Some ?u) (Some ?x)"
  let ?m2 = "Node (CHR 0x00) (- 2147483648) (Some ?p) (Some ?q)"
  let ?m3 = "Node (CHR 0x00) (- 1073741823) (Some ?m2) (Some ?z)"
  let ?t = "Node (CHR 0x00) 3 (Some ?m3) (Some ?m1)"
  have "merge_loop [?t] [?t]" by (simp add: merge_loop_short)
  then have "merge_loop [?m3, ?m1] [?t]"
    by (rule merge_loop_iterate_to [where l = ?m3 and r = ?m1, rotated -1])
       (simp_all add: is_top_iff pop_def push_def merged_def int32_def)
  then have "merge_loop [?m2, ?m1, ?z] [?t]"
    by (rule merge_loop_iterate_to [where l = ?m2 and r = ?z, rotated -1])
       (simp_all add: is_top_iff pop_def push_def merged_def int32_def)
  then have "merge_loop [?m1, ?z, ?q, ?p] [?t]"
    by (rule merge_loop_iterate_to [where l = ?p and r = ?q, rotated -1])
       (simp_all add: is_top_iff pop_def push_def merged_def int32_def)
  then have "merge_loop [?z, ?q, ?p, ?x, ?u] [?t]"
    by (rule merge_loop_iterate_to [where l = ?u and r = ?x, rotated -1])
       (simp_all add: is_top_iff pop_def push_def merged_def int32_def)
  then show ?thesis
    by (simp add: build_cases push_def new_Node_def)
qed

lemma codes_wrapping:
  "generateHuffmanCodes
     (Some (Node (CHR 0x00) 3
        (Some (Node (CHR 0x00) (- 1073741823)
           (Some (Node (CHR 0x00) (- 2147483648)
              (Some (Node CHR ''p'' 1073741824 None None))
              (Some (Node CHR ''q'' 1073741824 None None))))
           (Some (Node CHR ''z'' 1073741825 None None))))
        (Some (Node (CHR 0x00) 1073741826
           (Some (Node CHR ''u'' 536870913 None None))
           (Some (Node CHR ''x'' 536870913 None None)))))) [] [] =
   [(CHR ''p'', ''000''), (CHR ''q'', ''001''), (CHR ''z'', ''01''),
    (CHR ''u'', ''10''), (CHR ''x'', ''11'')]"
  by (simp add: generate_Node)

text \<open>Whatever the order in which the queue hands out the nodes of equal count.\<close>

lemma merge_loop_step:
  assumes "merge_loop q q'" "1 < length q"
  obtains l r where "is_top q l" "is_top (pop l q) r"
    "merge_loop (push (merged l r) (pop r (pop l q))) q'"
  using assms by (cases rule: merge_loop.cases) auto

lemma wrapping_tail:
  assumes m1: "freq m1 = 1073741826" and m2: "freq m2 = - 2147483648"
    and loop: "merge_loop [m2, m1, Node CHR ''z'' 1073741825 None None] [t]"
  shows "t = Node (CHR 0x00) 3
      (Some (Node (CHR 0x00) (- 1073741823) (Some m2) (Some (Node CHR ''z'' 1073741825 None None))))
      (Some m1)"
proof -
  let ?z = "Node CHR ''z'' 1073741825 None None"
  let ?m3 = "Node (CHR 0x00) (- 1073741823) (Some m2) (Some ?z)"
  from loop obtain l r where l: "is_top [m2, m1, ?z] l" and r: "is_top (pop l [m2, m1, ?z]) r"
    and next1: "merge_loop (push (merged l r) (pop r (pop l [m2, m1, ?z]))) [t]"
    by (rule merge_loop_step) simp
  from l m1 m2 have "l = m2" by (auto simp: is_top_iff)
  with r m1 m2 have "r = ?z" by (auto simp: is_top_iff pop_def split: if_splits)
  with \<open>l = m2\<close> next1 m1 m2 have 3: "merge_loop [?m3, m1] [t]"
    by (auto simp: push_def pop_def merged_def int32_def split: if_splits)
  from 3 obtain l r where l: "is_top [?m3, m1] l" and r: "is_top (pop l [?m3, m1]) r"
    and next2: "merge_loop (push (merged l r) (pop r (pop l [?m3, m1]))) [t]"
    by (rule merge_loop_step) simp
  from l m1 have "l = ?m3" by (auto simp: is_top_iff)
  with r m1 have "r = m1" by (auto simp: is_top_iff pop_def split: if_splits)
  with \<open>l = ?m3\<close> next2 m1 have "merge_loop [Node (CHR 0x00) 3 (Some ?m3) (Some m1)] [t]"
    by (auto simp: push_def pop_def merged_def int32_def split: if_splits)
  then show ?thesis by (simp add: merge_loop_short)
qed


lemma wrapping_every_outcome:
  assumes "buildHuffmanTree
     [(CHR ''u'', 536870913), (CHR ''x'', 536870913), (CHR ''p'', 1073741824),
      (CHR ''q'', 1073741824), (CHR ''z'', 1073741825)] (Inr t)"
  shows "\<exists>ca cb. map_of (generateHuffmanCodes (Some t) [] []) CHR ''p'' = Some ca \<and>
           map_of (generateHuffmanCodes (Some t) [] []) CHR ''u'' = Some cb \<and>
           length ca = 3 \<and> length cb = 2"
proof -
  let ?u = "Node CHR ''u'' 536870913 None None" and ?x = "Node CHR ''x'' 536870913 None None"
    and ?p = "Node CHR ''p'' 1073741824 None None" and ?q = "Node CHR ''q'' 1073741824 None None"
    and ?z = "Node CHR ''z'' 1073741825 None None"
  let ?ux = "Node (CHR 0x00) 1073741826 (Some ?u) (Some ?x)"
  let ?xu = "Node (CHR 0x00) 1073741826 (Some ?x) (Some ?u)"
  let ?pq = "Node (CHR 0x00) (- 2147483648) (Some ?p) (Some ?q)"
  let ?qp = "Node (CHR 0x00) (- 2147483648) (Some ?q) (Some ?p)"
  from assms have 0: "merge_loop [?z, ?q, ?p, ?x, ?u] [t]"
    by (simp add: build_cases push_def new_Node_def)
  from 0 obtain l r where l: "is_top [?z, ?q, ?p, ?x, ?u] l"
    and r: "is_top (pop l [?z, ?q, ?p, ?x, ?u]) r"
    and next1: "merge_loop (push (merged l r) (pop r (pop l [?z, ?q, ?p, ?x, ?u]))) [t]"
    by (rule merge_loop_step) simp
  from l have "l = ?u \<or> l = ?x" by (auto simp: is_top_iff)
  then obtain m1 where m1: "m1 = ?ux \<or> m1 = ?xu" and 1: "merge_loop [m1, ?z, ?q, ?p] [t]"
  proof
    assume l: "l = ?u"
    with r have "r = ?x" by (auto simp: is_top_iff pop_def)
    with l next1 have "merge_loop [?ux, ?z, ?q, ?p] [t]"
      by (simp add: push_def pop_def merged_def int32_def)
    then show ?thesis using that by blast
  next
    assume l: "l = ?x"
    with r have "r = ?u" by (auto simp: is_top_iff pop_def)
    with l next1 have "merge_loop [?xu, ?z, ?q, ?p] [t]"
      by (simp add: push_def pop_def merged_def int32_def)
    then show ?thesis using that by blast
  qed
  from m1 have f1: "freq m1 = 1073741826" by auto
  from 1 obtain l r where l: "is_top [m1, ?z, ?q, ?p] l"
    and r: "is_top (pop l [m1, ?z, ?q, ?p]) r"
    and next2: "merge_loop (push (merged l r) (pop r (pop l [m1, ?z, ?q, ?p]))) [t]"
    by (rule merge_loop_step) simp
  from l f1 have "l = ?p \<or> l = ?q" by (auto simp: is_top_iff)
  then obtain m2 where m2: "m2 = ?pq \<or> m2 = ?qp" and 2: "merge_loop [m2, m1, ?z] [t]"
  proof
    assume l: "l = ?p"
    with r f1 have "r = ?q" by (auto simp: is_top_iff pop_def split: if_splits)
    with l next2 f1 have "merge_loop [?pq, m1, ?z] [t]"
      by (auto simp: push_def pop_def merged_def int32_def split: if_splits)
    then show ?thesis using that by blast
  next
    assume l: "l = ?q"
    with r f1 have "r = ?p" by (auto simp: is_top_iff pop_def split: if_splits)
    with l next2 f1 have "merge_loop [?qp, m1, ?z] [t]"
      by (auto simp: push_def pop_def merged_def int32_def split: if_splits)
    then show ?thesis using that by blast
  qed
  from m2 have f2: "freq m2 = - 2147483648" by auto
  from wrapping_tail [OF f1 f2 2]
  have t: "t = Node (CHR 0x00) 3 (Some (Node (CHR 0x00) (- 1073741823) (Some m2) (Some ?z))) (Some m1)" .
  from m1 m2 consider "m1 = ?ux" "m2 = ?pq" | "m1 = ?ux" "m2 = ?qp"
    | "m1 = ?xu" "m2 = ?pq" | "m1 = ?xu" "m2 = ?qp" by blast
  then show ?thesis
    by cases (simp_all add: t generate_Node)
qed

text \<open>
  C6, as stated, for every frequency map. In the table with the counts
  \<open>u = x = 536870913\<close>, \<open>p = q = 1073741824\<close> and \<open>z = 1073741825\<close> the symbol \<open>p\<close>
  has a strictly greater count than \<open>u\<close>, and the builder returns a tree in which the
  code of \<open>p\<close> has three bits and the code of \<open>u\<close> two; so it is in every tree
  the builder can return for this table.
\<close>

theorem weighted_length_counterexample:
  "buildHuffmanTree
     [(CHR ''u'', 536870913), (CHR ''x'', 536870913), (CHR ''p'', 1073741824),
      (CHR ''q'', 1073741824), (CHR ''z'', 1073741825)]
     (Inr (Node (CHR 0x00) 3
        (Some (Node (CHR 0x00) (- 1073741823)
           (Some (Node (CHR 0x00) (- 2147483648)
              (Some (Node CHR ''p'' 1073741824 None None))
              (Some (Node CHR ''q'' 1073741824 None None))))
           (Some (Node CHR ''z'' 1073741825 None None))))
        (Some (Node (CHR 0x00) 1073741826
           (Some (Node CHR ''u'' 536870913 None None))
           (Some (Node CHR ''x'' 536870913 None None)))))) \<and>
   distinct (map fst
     [(CHR ''u'', 536870913 :: int), (CHR ''x'', 536870913), (CHR ''p'', 1073741824),
      (CHR ''q'', 1073741824), (CHR ''z'', 1073741825)]) \<and>
   list_all (\<lambda>x. 0 < snd x)
     [(CHR ''u'', 536870913 :: int), (CHR ''x'', 536870913), (CHR ''p'', 1073741824),
      (CHR ''q'', 1073741824), (CHR ''z'', 1073741825)] \<and>
   map_of
     [(CHR ''u'', 536870913 :: int), (CHR ''x'', 536870913), (CHR ''p'', 1073741824),
      (CHR ''q'', 1073741824), (CHR ''z'', 1073741825)] CHR ''p'' = Some 1073741824 \<and>
   map_of
     [(CHR ''u'', 536870913 :: int), (CHR ''x'', 536870913), (CHR ''p'', 1073741824),
      (CHR ''q'', 1073741824), (CHR ''z'', 1073741825)] CHR ''u'' = Some 536870913 \<and>
   (536870913 :: int) < 1073741824 \<and>
   map_of (generateHuffmanCodes
     (Some (Node (CHR 0x00) 3
        (Some (Node (CHR 0x00) (- 1073741823)
           (Some (Node (CHR 0x00) (- 2147483648)
              (Some (Node CHR ''p'' 1073741824 None None))
              (Some (Node CHR ''q'' 1073741824 None None))))
           (Some (Node CHR ''z'' 1073741825 None None))))
        (Some (Node (CHR 0x00) 1073741826
           (Some (Node CHR ''u'' 536870913 None None))
           (Some (Node CHR ''x'' 536870913 None None)))))) [] []) CHR ''p'' = Some ''000'' \<and>
   map_of (generateHuffmanCodes
     (Some (Node (CHR 0x00) 3
        (Some (Node (CHR 0x00) (- 1073741823)
           (Some (Node (CHR 0x00) (- 2147483648)
              (Some (Node CHR ''p'' 1073741824 None None))
              (Some (Node CHR ''q'' 1073741824 None None))))
           (Some (Node CHR ''z'' 1073741825 None None))))
        (Some (Node (CHR 0x00) 1073741826
           (Some (Node CHR ''u'' 536870913 None None))
           (Some (Node CHR ''x'' 536870913 None None)))))) [] []) CHR ''u'' = Some ''10'' \<and>
   \<not> length ''000'' \<le> length ''10'' \<and>
   \<not> (\<exists>t ca cb.
        buildHuffmanTree
          [(CHR ''u'', 536870913), (CHR ''x'', 536870913), (CHR ''p'', 1073741824),
           (CHR ''q'', 1073741824), (CHR ''z'', 1073741825)] (Inr t) \<and>
        map_of (generateHuffmanCodes (Some t) [] []) CHR ''p'' = Some ca \<and>
        map_of (generateHuffmanCodes (Some t) [] []) CHR ''u'' = Some cb \<and>
        length ca \<le> length cb)"
proof -
  have "\<not> (\<exists>t ca cb.
        buildHuffmanTree
          [(CHR ''u'', 536870913), (CHR ''x'', 536870913), (CHR ''p'', 1073741824),
           (CHR ''q'', 1073741824), (CHR ''z'', 1073741825)] (Inr t) \<and>
        map_of (generateHuffmanCodes (Some t) [] []) CHR ''p'' = Some ca \<and>
        map_of (generateHuffmanCodes (Some t) [] []) CHR ''u'' = Some cb \<and>
        length ca \<le> length cb)"
    using wrapping_every_outcome by fastforce
  with build_wrapping show ?thesis by (simp add: codes_wrapping)
qed

text \<open>
  C6, amended. In the code map of every tree built from a table of positive counts with
  distinct keys whose counts add up to less than \<open>2^31\<close> (so that no sum of counts
  wraps), a symbol with a strictly greater count than another has a code that is at
  most as long.
\<close>

theorem weighted_length:
  assumes "buildHuffmanTree frequency (Inr t)"
    and "distinct (map fst frequency)" and "\<forall>x\<in>set frequency. 0 < snd x"
    and "sum_list (map snd frequency) < 2147483648"
    and "map_of frequency a = Some fa" and "map_of frequency b = Some fb" and "fb < fa"
    and "map_of (generateHuffmanCodes (Some t) [] []) a = Some ca"
    and "map_of (generateHuffmanCodes (Some t) [] []) b = Some cb"
  shows "length ca \<le> length cb"
proof (rule ccontr)
  assume "\<not> length ca \<le> length cb"
  then have deeper: "length cb < length ca" by simp
  have w: "weighted t" using assms(1,3,4) by (rule built_tree_weighted)
  then have strict: "strict t" by (rule weighted_strict)
  from built_tree_weighted(2) [OF assms(1,3,4)] obtain h where
    h: "mset h = mset (sibling_pairs t)" "sorted_wrt before h" by blast
  from code_map_sound [OF strict assms(8)] obtain f where a: "(a, f, ca) \<in> set (leaves t [])" ..
  from code_map_sound [OF strict assms(9)] obtain f' where b: "(b, f', cb) \<in> set (leaves t [])" ..
  from built_leaf_count [OF assms(1,2,5) a] a have "fa \<in> set (level t (length ca))"
    using leaf_at_level [OF strict] by blast
  moreover from built_leaf_count [OF assms(1,2,6) b] b have "fb \<in> set (level t (length cb))"
    using leaf_at_level [OF strict] by blast
  ultimately have "fa \<le> fb"
    using deeper_is_lighter [OF w h(2,1) deeper] by blast
  with assms(7) show False by simp
qed

theorem weighted_length_witness:
  "buildHuffmanTree (buildFrequencyTable ''abbcccc'')
     (Inr (Node (CHR 0x00) 7
        (Some (Node (CHR 0x00) 3 (Some (Node CHR ''a'' 1 None None))
           (Some (Node CHR ''b'' 2 None None))))
        (Some (Node CHR ''c'' 4 None None)))) \<and>
   distinct (map fst (buildFrequencyTable ''abbcccc'')) \<and>
   list_all (\<lambda>x. 0 < snd x) (buildFrequencyTable ''abbcccc'') \<and>
   sum_list (map snd (buildFrequencyTable ''abbcccc'')) < 2147483648 \<and>
   map_of (buildFrequencyTable ''abbcccc'') CHR ''c'' = Some 4 \<and>
   map_of (buildFrequencyTable ''abbcccc'') CHR ''a'' = Some 1 \<and>
   map_of (generateHuffmanCodes
     (Some (Node (CHR 0x00) 7
        (Some (Node (CHR 0x00) 3 (Some (Node CHR ''a'' 1 None None))
           (Some (Node CHR ''b'' 2 None None))))
        (Some (Node CHR ''c'' 4 None None)))) [] []) CHR ''c'' = Some ''1'' \<and>
   map_of (generateHuffmanCodes
     (Some (Node (CHR 0x00) 7
        (Some (Node (CHR 0x00) 3 (Some (Node CHR ''a'' 1 None None))
           (Some (Node CHR ''b'' 2 None None))))
        (Some (Node CHR ''c'' 4 None None)))) [] []) CHR ''a'' = Some ''00'' \<and>
   length ''1'' \<le> length ''00''"
  using weighted_length [OF build_abbcccc, of "CHR ''c''" 4 "CHR ''a''" 1 "''1''" "''00''"]
    build_abbcccc
  by (simp add: table_abbcccc codes_abbcccc)

end
